theory Spec2Isabelle
  imports Complex_Main
begin

section \<open>JavaScript values used by both programs\<close>

text \<open>
  A JavaScript \<^verbatim>\<open>Map\<close> keeps its entries in insertion order: \<^verbatim>\<open>set\<close> on a new key
  appends the entry, \<^verbatim>\<open>set\<close> on a stored key replaces the value in place,
  \<^verbatim>\<open>forEach\<close> visits the entries front to back. It is modelled as an association
  list with at most one entry per key.
\<close>

type_synonym ('k, 'v) js_map = "('k \<times> 'v) list"

definition map_has :: "'k \<Rightarrow> ('k, 'v) js_map \<Rightarrow> bool" where
  "map_has k m = (map_of m k \<noteq> None)"

definition map_get :: "'k \<Rightarrow> ('k, 'v) js_map \<Rightarrow> 'v option" where
  "map_get k m = map_of m k"

fun map_set :: "'k \<Rightarrow> 'v \<Rightarrow> ('k, 'v) js_map \<Rightarrow> ('k, 'v) js_map" where
  "map_set k v [] = [(k, v)]"
| "map_set k v ((k', v') # m) = (if k' = k then (k, v) # m else (k', v') # map_set k v m)"

fun map_delete :: "'k \<Rightarrow> ('k, 'v) js_map \<Rightarrow> ('k, 'v) js_map" where
  "map_delete k [] = []"
| "map_delete k ((k', v') # m) = (if k' = k then m else (k', v') # map_delete k m)"

text \<open>
  \<^verbatim>\<open>m.get(k).field = ...\<close>, \<^verbatim>\<open>m.get(k).list.push(x)\<close>: the entry of \<open>k\<close> is an
  object that the statement mutates in place. The source only does so right after it
  has made sure that the key is stored.
\<close>

fun map_modify :: "'k \<Rightarrow> ('v \<Rightarrow> 'v) \<Rightarrow> ('k, 'v) js_map \<Rightarrow> ('k, 'v) js_map" where
  "map_modify k f [] = []"
| "map_modify k f ((k', v') # m) = (if k' = k then (k', f v') # m else (k', v') # map_modify k f m)"

text \<open>
  A JavaScript number is a double. The model computes with exact reals and keeps apart
  the three results that exact arithmetic does not have: the two infinities and NaN, which
  a division by zero produces. Rounding is not modelled.
\<close>

datatype jsnum = Fin real | PosInf | NegInf | NaN

definition js_div :: "real \<Rightarrow> real \<Rightarrow> jsnum" where
  "js_div a b =
     (if b \<noteq> 0 then Fin (a / b)
      else if a > 0 then PosInf
      else if a < 0 then NegInf
      else NaN)"

fun js_gt :: "jsnum \<Rightarrow> real \<Rightarrow> bool" where
  "js_gt (Fin a) b = (a > b)"
| "js_gt PosInf b = True"
| "js_gt NegInf b = False"
| "js_gt NaN b = False"

datatype error = RangeError | TypeError | Error string


section \<open>The suspicious-activity detector: data\<close>

record log_record =
  ip :: string
  endpoint :: string
  timestamp :: int
  status :: int
  user_agent :: string
  response_time :: real

record config =
  max_requests_per_minute :: real
  max_failed_logins :: int
  suspicious_endpoints :: "string list"
  time_window :: int

text \<open>The values of \<^verbatim>\<open>requestsPorIP\<close> and \<^verbatim>\<open>fallosLoginPorIP\<close>: \<^verbatim>\<open>{ timestamps, count }\<close>.\<close>

record conteo =
  timestamps :: "int list"
  count :: nat

text \<open>The values of \<^verbatim>\<open>accesosEndpointSensible\<close>: \<^verbatim>\<open>{ count, ips }\<close>.\<close>

record accesos =
  accesos_count :: nat
  ips :: "string list"

subsection \<open>The per-IP user-agent table, a plain object\<close>

text \<open>
  \<^verbatim>\<open>userAgentsPorIP.set(ip, {})\<close> stores a plain object that the source uses as a
  dictionary from user-agent strings to counts. An \<open>objeto\<close> lists the own properties
  of such an object in the order of their creation. Three things of a plain object show
  in the source's statements: a read of a name that is not an own property finds the
  properties that every object inherits from \<^verbatim>\<open>Object.prototype\<close>; an assignment to
  \<^verbatim>\<open>__proto__\<close> with a number creates no property; and \<^verbatim>\<open>Object.keys\<close> and
  \<^verbatim>\<open>Object.values\<close> list the array-index names first, in ascending numeric order,
  and the other names after them in creation order.
\<close>

type_synonym objeto = "(string \<times> jsnum) list"

definition object_prototype_names :: "string list" where
  "object_prototype_names =
     [''constructor'', ''__defineGetter__'', ''__defineSetter__'', ''hasOwnProperty'',
      ''__lookupGetter__'', ''__lookupSetter__'', ''isPrototypeOf'',
      ''propertyIsEnumerable'', ''toString'', ''valueOf'', ''__proto__'',
      ''toLocaleString'']"

text \<open>What \<^verbatim>\<open>ua_map[user_agent]\<close> reads.\<close>

datatype lectura = Undefined | Numero jsnum | Heredado

definition obj_get :: "string \<Rightarrow> objeto \<Rightarrow> lectura" where
  "obj_get k obj =
     (case map_of obj k of
        Some v \<Rightarrow> Numero v
      | None \<Rightarrow> if k \<in> set object_prototype_names then Heredado else Undefined)"

definition obj_set :: "string \<Rightarrow> jsnum \<Rightarrow> objeto \<Rightarrow> objeto" where
  "obj_set k v obj = (if k = ''__proto__'' then obj else map_set k v obj)"

text \<open>\<^verbatim>\<open>!x\<close> is true of \<^verbatim>\<open>undefined\<close>, of zero and of NaN; a function or an object is truthy.\<close>

fun js_not :: "lectura \<Rightarrow> bool" where
  "js_not Undefined = True"
| "js_not (Numero (Fin a)) = (a = 0)"
| "js_not (Numero NaN) = True"
| "js_not (Numero PosInf) = False"
| "js_not (Numero NegInf) = False"
| "js_not Heredado = False"

text \<open>The number that \<^verbatim>\<open>x++\<close> increments: a function or an object converts to NaN.\<close>

fun to_number :: "lectura \<Rightarrow> jsnum" where
  "to_number Undefined = NaN"
| "to_number (Numero v) = v"
| "to_number Heredado = NaN"

fun js_add :: "jsnum \<Rightarrow> jsnum \<Rightarrow> jsnum" where
  "js_add (Fin a) (Fin b) = Fin (a + b)"
| "js_add NaN _ = NaN"
| "js_add _ NaN = NaN"
| "js_add PosInf NegInf = NaN"
| "js_add NegInf PosInf = NaN"
| "js_add PosInf _ = PosInf"
| "js_add _ PosInf = PosInf"
| "js_add NegInf _ = NegInf"
| "js_add _ NegInf = NegInf"

definition contar_user_agent :: "string \<Rightarrow> objeto \<Rightarrow> objeto" where
  "contar_user_agent user_agent' ua_map =
     (let ua_map1 = (if js_not (obj_get user_agent' ua_map)
                     then obj_set user_agent' (Fin 0) ua_map else ua_map)
      in obj_set user_agent' (js_add (to_number (obj_get user_agent' ua_map1)) (Fin 1)) ua_map1)"

text \<open>
  An array index is the canonical decimal numeral of a number below \<open>2^32 - 1\<close>:
  digits only, no leading zero unless it is \<open>''0''\<close> itself.
\<close>

definition digito :: "char \<Rightarrow> bool" where
  "digito c = (48 \<le> (of_char c :: nat) \<and> (of_char c :: nat) \<le> 57)"

definition valor_indice :: "string \<Rightarrow> nat" where
  "valor_indice s = foldl (\<lambda>n c. 10 * n + ((of_char c :: nat) - 48)) 0 s"

definition is_array_index :: "string \<Rightarrow> bool" where
  "is_array_index s =
     (s \<noteq> [] \<and> list_all digito s \<and> (hd s \<noteq> CHR ''0'' \<or> s = ''0'')
      \<and> valor_indice s < 4294967295)"

definition object_entries :: "objeto \<Rightarrow> (string \<times> jsnum) list" where
  "object_entries obj =
     sort_key (\<lambda>p. valor_indice (fst p)) (filter (\<lambda>p. is_array_index (fst p)) obj)
     @ filter (\<lambda>p. \<not> is_array_index (fst p)) obj"

definition object_keys :: "objeto \<Rightarrow> string list" where
  "object_keys obj = map fst (object_entries obj)"

definition object_values :: "objeto \<Rightarrow> jsnum list" where
  "object_values obj = map snd (object_entries obj)"

text \<open>\<^verbatim>\<open>Math.max\<close> starts from minus infinity and is NaN as soon as one argument is.\<close>

fun js_max :: "jsnum \<Rightarrow> jsnum \<Rightarrow> jsnum" where
  "js_max NaN _ = NaN"
| "js_max _ NaN = NaN"
| "js_max PosInf _ = PosInf"
| "js_max _ PosInf = PosInf"
| "js_max NegInf b = b"
| "js_max a NegInf = a"
| "js_max (Fin a) (Fin b) = Fin (max a b)"

definition math_max :: "jsnum list \<Rightarrow> jsnum" where
  "math_max xs = foldl js_max NegInf xs"

text \<open>\<^verbatim>\<open>indexOf\<close> compares with \<^verbatim>\<open>===\<close>, under which NaN equals nothing; \<open>None\<close> is its \<open>-1\<close>.\<close>

fun js_strict_eq :: "jsnum \<Rightarrow> jsnum \<Rightarrow> bool" where
  "js_strict_eq NaN _ = False"
| "js_strict_eq _ NaN = False"
| "js_strict_eq a b = (a = b)"

fun indexOf :: "jsnum list \<Rightarrow> jsnum \<Rightarrow> nat option" where
  "indexOf [] x = None"
| "indexOf (y # ys) x =
     (if js_strict_eq y x then Some 0
      else (case indexOf ys x of None \<Rightarrow> None | Some i \<Rightarrow> Some (Suc i)))"

text \<open>\<^verbatim>\<open>xs[i]\<close> is \<^verbatim>\<open>undefined\<close> out of range, and for the index \<open>-1\<close>.\<close>

definition elemento :: "'a list \<Rightarrow> nat option \<Rightarrow> 'a option" where
  "elemento xs i =
     (case i of None \<Rightarrow> None | Some n \<Rightarrow> if n < length xs then Some (xs ! n) else None)"

subsection \<open>The aggregation tables and the report\<close>

record tablas =
  requestsPorIP :: "(string, conteo) js_map"
  fallosLoginPorIP :: "(string, conteo) js_map"
  accesosEndpointSensible :: "(string, accesos) js_map"
  userAgentsPorIP :: "(string, objeto) js_map"
  tiemposRespuestaPorIP :: "(string, real list) js_map"

text \<open>
  The findings. Their constant descriptive strings (\<^verbatim>\<open>razon\<close>, \<^verbatim>\<open>tipo_ataque\<close>,
  \<^verbatim>\<open>descripcion\<close>, \<^verbatim>\<open>detalle\<close>) are left out; \<^verbatim>\<open>tipo_anomalia\<close> is the constructor
  of an \<open>anomalia\<close>. A number that the source renders with \<^verbatim>\<open>toFixed(2)\<close> is kept
  as the number; a time that it renders with \<^verbatim>\<open>toISOString\<close> is kept as the time value.
\<close>

record ip_sospechosa =
  s_ip :: string
  requests_detectados :: jsnum
  s_limite_permitido :: real
  ventana_minutos :: real

record ataque_fuerza_bruta =
  f_ip :: string
  intentos_fallidos :: nat
  f_limite_permitido :: int
  timestamps_intentos :: "int list"
  primera_tentativa :: int
  ultima_tentativa :: int

record endpoint_bajo_ataque =
  e_endpoint :: string
  total_accesos :: nat
  ips_unicas :: nat

datatype anomalia =
  MultiplesUserAgents
    (a_ip: string) (cantidad_user_agents: nat) (user_agent_mas_comun: "string option")
    (total_requests_desde_ip: jsnum)
| TiemposIrregulares
    (a_ip: string) (tiempo_promedio_ms: real) (desviacion_estandar_ms: real)

record informe =
  ips_sospechosas :: "ip_sospechosa list"
  ataques_fuerza_bruta :: "ataque_fuerza_bruta list"
  endpoints_bajo_ataque :: "endpoint_bajo_ataque list"
  anomalias_detectadas :: "anomalia list"
  total_eventos_sospechosos :: nat

definition informe_inicial :: informe where
  "informe_inicial =
     \<lparr>ips_sospechosas = [], ataques_fuerza_bruta = [], endpoints_bajo_ataque = [],
      anomalias_detectadas = [], total_eventos_sospechosos = 0\<rparr>"

definition tablas_iniciales :: tablas where
  "tablas_iniciales =
     \<lparr>requestsPorIP = [], fallosLoginPorIP = [], accesosEndpointSensible = [],
      userAgentsPorIP = [], tiemposRespuestaPorIP = []\<rparr>"

section \<open>The detector: \<^verbatim>\<open>detectarActividadSospechosa\<close>\<close>

subsection \<open>Step 3: one pass over the logs\<close>

text \<open>The body of \<^verbatim>\<open>logs.forEach\<close>, its five analyses in the source's order.\<close>

definition procesar_log :: "config \<Rightarrow> log_record \<Rightarrow> tablas \<Rightarrow> tablas" where
  "procesar_log config lg t =
     (let r0 = requestsPorIP t;
          r1 = (if \<not> map_has (ip lg) r0
                then map_set (ip lg) \<lparr>timestamps = [], count = 0\<rparr> r0 else r0);
          r2 = map_modify (ip lg) (\<lambda>d. d\<lparr>timestamps := timestamps d @ [timestamp lg]\<rparr>) r1;
          r3 = map_modify (ip lg) (\<lambda>d. d\<lparr>count := count d + 1\<rparr>) r2;
          f0 = fallosLoginPorIP t;
          f3 = (if endpoint lg \<in> set (suspicious_endpoints config)
                   \<and> (status lg = 401 \<or> status lg = 403)
                then
                  (let f1 = (if \<not> map_has (ip lg) f0
                             then map_set (ip lg) \<lparr>timestamps = [], count = 0\<rparr> f0 else f0);
                       f2 = map_modify (ip lg) (\<lambda>d. d\<lparr>count := count d + 1\<rparr>) f1
                   in map_modify (ip lg) (\<lambda>d. d\<lparr>timestamps := timestamps d @ [timestamp lg]\<rparr>) f2)
                else f0);
          e0 = accesosEndpointSensible t;
          e3 = (if endpoint lg \<in> set (suspicious_endpoints config)
                then
                  (let e1 = (if \<not> map_has (endpoint lg) e0
                             then map_set (endpoint lg) \<lparr>accesos_count = 0, ips = []\<rparr> e0 else e0);
                       e2 = map_modify (endpoint lg) (\<lambda>d. d\<lparr>accesos_count := accesos_count d + 1\<rparr>) e1
                   in map_modify (endpoint lg) (\<lambda>d. d\<lparr>ips := ips d @ [ip lg]\<rparr>) e2)
                else e0);
          u0 = userAgentsPorIP t;
          u1 = (if \<not> map_has (ip lg) u0 then map_set (ip lg) [] u0 else u0);
          u2 = map_modify (ip lg) (contar_user_agent (user_agent lg)) u1;
          t0 = tiemposRespuestaPorIP t;
          t1 = (if \<not> map_has (ip lg) t0 then map_set (ip lg) [] t0 else t0);
          t2 = map_modify (ip lg) (\<lambda>tiempos. tiempos @ [response_time lg]) t1
      in \<lparr>requestsPorIP = r3, fallosLoginPorIP = f3, accesosEndpointSensible = e3,
          userAgentsPorIP = u2, tiemposRespuestaPorIP = t2\<rparr>)"

definition paso3 :: "config \<Rightarrow> log_record list \<Rightarrow> tablas" where
  "paso3 config logs = fold (procesar_log config) logs tablas_iniciales"

subsection \<open>Step 4: requests per minute in a window\<close>

text \<open>
  The inner loop \<^verbatim>\<open>for (let j = i; j < timestamps.length; j++)\<close>, which counts while
  the timestamp is inside the window and leaves at the first one outside.
\<close>

function bucle_j :: "int list \<Rightarrow> int \<Rightarrow> nat \<Rightarrow> nat \<Rightarrow> nat" where
  "bucle_j timestamps' window_end j requests_in_window =
     (if j < length timestamps' then
        (if timestamps' ! j \<le> window_end
         then bucle_j timestamps' window_end (j + 1) (requests_in_window + 1)
         else requests_in_window)
      else requests_in_window)"
  by pat_completeness auto
termination
  by (relation "measure (\<lambda>(ts, w, j, n). length ts - j)") auto

declare bucle_j.simps [simp del]

text \<open>What the body of the outer loop computes for the window that starts at \<open>i\<close>.\<close>

definition requests_per_minute :: "config \<Rightarrow> int list \<Rightarrow> nat \<Rightarrow> jsnum" where
  "requests_per_minute config timestamps' i =
     (let current_time = timestamps' ! i;
          window_end = current_time + time_window config;
          requests_in_window = bucle_j timestamps' window_end i 0;
          window_minutes = real_of_int (time_window config) / 60000
      in js_div (real requests_in_window) window_minutes)"

text \<open>
  The outer loop \<^verbatim>\<open>for (let i = 0; i < timestamps.length; i++)\<close>: at the first window
  over the limit it pushes a finding, unless the IP has one already, and leaves.
\<close>

function bucle_i :: "config \<Rightarrow> string \<Rightarrow> int list \<Rightarrow> nat \<Rightarrow> informe \<Rightarrow> informe" where
  "bucle_i config ip' timestamps' i rep =
     (if i < length timestamps' then
        (if js_gt (requests_per_minute config timestamps' i) (max_requests_per_minute config)
         then
           (if find (\<lambda>item. s_ip item = ip') (ips_sospechosas rep) = None
            then rep\<lparr>ips_sospechosas := ips_sospechosas rep @
                        [\<lparr>s_ip = ip',
                          requests_detectados = requests_per_minute config timestamps' i,
                          s_limite_permitido = max_requests_per_minute config,
                          ventana_minutos = real_of_int (time_window config) / 60000\<rparr>],
                     total_eventos_sospechosos := total_eventos_sospechosos rep + 1\<rparr>
            else rep)
         else bucle_i config ip' timestamps' (i + 1) rep)
      else rep)"
  by pat_completeness auto
termination
  by (relation "measure (\<lambda>(c, a, ts, i, rep). length ts - i)") auto

declare bucle_i.simps [simp del]

text \<open>
  \<^verbatim>\<open>timestamps.sort((a, b) => a - b)\<close> sorts the IP's array in place, ascending. No later
  step reads \<^verbatim>\<open>requestsPorIP\<close>, so the step returns the report only.
\<close>

definition paso4_ip :: "config \<Rightarrow> string \<times> conteo \<Rightarrow> informe \<Rightarrow> informe" where
  "paso4_ip config entry rep = bucle_i config (fst entry) (sort (timestamps (snd entry))) 0 rep"

definition paso4 :: "config \<Rightarrow> tablas \<Rightarrow> informe \<Rightarrow> informe" where
  "paso4 config t rep = fold (paso4_ip config) (requestsPorIP t) rep"

subsection \<open>Step 5: failed logins\<close>

text \<open>
  \<^verbatim>\<open>new Date(t).toISOString()\<close> raises a RangeError when \<open>t\<close> is not a time value:
  when it is \<^verbatim>\<open>undefined\<close> (the element of an empty array) or beyond 8.64e15
  milliseconds from the epoch. Otherwise the string names the time \<open>t\<close>, which stands for it here.
\<close>

definition toISOString :: "int option \<Rightarrow> error + int" where
  "toISOString t =
     (case t of
        None \<Rightarrow> Inl RangeError
      | Some ms \<Rightarrow> if \<bar>ms\<bar> \<le> 8640000000000000 then Inr ms else Inl RangeError)"

definition paso5_ip :: "config \<Rightarrow> string \<times> conteo \<Rightarrow> informe \<Rightarrow> error + informe" where
  "paso5_ip config entry rep =
     (let ip' = fst entry; count' = count (snd entry); timestamps' = snd entry
      in if int count' > max_failed_logins config then
           (case toISOString (elemento (timestamps timestamps') (Some 0)) of
              Inl e \<Rightarrow> Inl e
            | Inr primera \<Rightarrow>
                (case toISOString
                        (elemento (timestamps timestamps')
                           (if timestamps timestamps' = [] then None
                            else Some (length (timestamps timestamps') - 1))) of
                   Inl e \<Rightarrow> Inl e
                 | Inr ultima \<Rightarrow>
                     Inr (rep\<lparr>ataques_fuerza_bruta := ataques_fuerza_bruta rep @
                                 [\<lparr>f_ip = ip', intentos_fallidos = count',
                                   f_limite_permitido = max_failed_logins config,
                                   timestamps_intentos = timestamps timestamps',
                                   primera_tentativa = primera, ultima_tentativa = ultima\<rparr>],
                              total_eventos_sospechosos := total_eventos_sospechosos rep + 1\<rparr>)))
         else Inr rep)"

text \<open>\<^verbatim>\<open>forEach\<close> with a body that may raise: the first error ends the run.\<close>

fun forEachE :: "('a \<Rightarrow> 's \<Rightarrow> error + 's) \<Rightarrow> 'a list \<Rightarrow> 's \<Rightarrow> error + 's" where
  "forEachE f [] s = Inr s"
| "forEachE f (x # xs) s = (case f x s of Inl e \<Rightarrow> Inl e | Inr s' \<Rightarrow> forEachE f xs s')"

definition paso5 :: "config \<Rightarrow> tablas \<Rightarrow> informe \<Rightarrow> error + informe" where
  "paso5 config t rep = forEachE (paso5_ip config) (fallosLoginPorIP t) rep"

subsection \<open>Step 6: endpoints reached from many IPs\<close>

definition paso6_endpoint :: "string \<times> accesos \<Rightarrow> informe \<Rightarrow> informe" where
  "paso6_endpoint entry rep =
     (let endpoint' = fst entry; count' = accesos_count (snd entry); ips' = ips (snd entry);
          unique_ips = length (remdups ips');
          umbral_ips = 10
      in if unique_ips > umbral_ips
         then rep\<lparr>endpoints_bajo_ataque := endpoints_bajo_ataque rep @
                     [\<lparr>e_endpoint = endpoint', total_accesos = count', ips_unicas = unique_ips\<rparr>],
                  total_eventos_sospechosos := total_eventos_sospechosos rep + 1\<rparr>
         else rep)"

definition paso6 :: "tablas \<Rightarrow> informe \<Rightarrow> informe" where
  "paso6 t rep = fold paso6_endpoint (accesosEndpointSensible t) rep"

subsection \<open>Step 7: many user agents\<close>

definition paso7_ip :: "string \<times> objeto \<Rightarrow> informe \<Rightarrow> informe" where
  "paso7_ip entry rep =
     (let ip' = fst entry; ua_map = snd entry;
          user_agents = object_keys ua_map;
          frecuencias = object_values ua_map
      in if length user_agents > 5 then
           (let total_requests = foldl js_add (Fin 0) frecuencias;
                mas_comun = elemento user_agents (indexOf frecuencias (math_max frecuencias))
            in rep\<lparr>anomalias_detectadas := anomalias_detectadas rep @
                      [MultiplesUserAgents ip' (length user_agents) mas_comun total_requests],
                   total_eventos_sospechosos := total_eventos_sospechosos rep + 1\<rparr>)
         else rep)"

definition paso7 :: "tablas \<Rightarrow> informe \<Rightarrow> informe" where
  "paso7 t rep = fold paso7_ip (userAgentsPorIP t) rep"

subsection \<open>Step 8: irregular response times\<close>

text \<open>
  On an empty array the mean would be \<open>0 / 0\<close>, NaN, for which the comparison is false;
  the tables never hold one.
\<close>

definition promedio :: "real list \<Rightarrow> real" where
  "promedio tiempos = foldl (\<lambda>a b. a + b) 0 tiempos / real (length tiempos)"

definition varianza :: "real list \<Rightarrow> real" where
  "varianza tiempos =
     foldl (\<lambda>sum t. sum + (t - promedio tiempos) ^ 2) 0 tiempos / real (length tiempos)"

definition desv_estandar :: "real list \<Rightarrow> real" where
  "desv_estandar tiempos = sqrt (varianza tiempos)"

definition paso8_ip :: "string \<times> real list \<Rightarrow> informe \<Rightarrow> informe" where
  "paso8_ip entry rep =
     (let ip' = fst entry; tiempos = snd entry
      in if tiempos \<noteq> [] \<and> desv_estandar tiempos > promedio tiempos * 1.5
         then rep\<lparr>anomalias_detectadas := anomalias_detectadas rep @
                     [TiemposIrregulares ip' (promedio tiempos) (desv_estandar tiempos)],
                  total_eventos_sospechosos := total_eventos_sospechosos rep + 1\<rparr>
         else rep)"

definition paso8 :: "tablas \<Rightarrow> informe \<Rightarrow> informe" where
  "paso8 t rep = fold paso8_ip (tiemposRespuestaPorIP t) rep"

subsection \<open>The whole run\<close>

definition detectarActividadSospechosa :: "log_record list \<Rightarrow> config \<Rightarrow> error + informe" where
  "detectarActividadSospechosa logs config =
     (let t = paso3 config logs;
          rep4 = paso4 config t informe_inicial
      in case paso5 config t rep4 of
           Inl e \<Rightarrow> Inl e
         | Inr rep5 \<Rightarrow> Inr (paso8 t (paso7 t (paso6 t rep5))))"


section \<open>The LRU cache: \<^verbatim>\<open>LRUCache\<close>\<close>

text \<open>
  Keys and values are JavaScript values; the tests use strings for keys and numbers for
  values, and the two sentinel nodes hold the number 0 in both fields.
\<close>

datatype jsval = Num int | Str string

text \<open>
  A \<^verbatim>\<open>Node\<close> lives in a heap, a list of nodes addressed by position; a reference is an
  address, and \<^verbatim>\<open>null\<close> is \<open>None\<close>. \<^verbatim>\<open>new Node\<close> appends to the heap, and nothing is
  ever freed, so every address in a field is the address of a node.
\<close>

record node =
  n_key :: jsval
  n_value :: jsval
  n_prev :: "nat option"
  n_next :: "nat option"

record lru_cache =
  capacity :: int
  cache :: "(jsval, nat) js_map"
  head :: nat
  tail :: nat
  heap :: "node list"

definition new_Node :: "jsval \<Rightarrow> jsval \<Rightarrow> node" where
  "new_Node key' value' = \<lparr>n_key = key', n_value = value', n_prev = None, n_next = None\<rparr>"

definition new_LRUCache :: "int \<Rightarrow> error + lru_cache" where
  "new_LRUCache capacity' =
     (if capacity' \<le> 0 then Inl (Error ''Capacity debe ser mayor a 0'')
      else Inr \<lparr>capacity = capacity', cache = [], head = 0, tail = 1,
                heap = [(new_Node (Num 0) (Num 0))\<lparr>n_next := Some 1\<rparr>,
                        (new_Node (Num 0) (Num 0))\<lparr>n_prev := Some 0\<rparr>]\<rparr>)"

text \<open>
  \<^verbatim>\<open>_removeNode\<close>: the two assignments in the source's order. An assignment to a field
  of \<^verbatim>\<open>null\<close> raises a TypeError.
\<close>

definition removeNode :: "nat \<Rightarrow> lru_cache \<Rightarrow> error + lru_cache" where
  "removeNode node' s =
     (let prev' = n_prev (heap s ! node');
          next' = n_next (heap s ! node')
      in case prev' of
           None \<Rightarrow> Inl TypeError
         | Some p \<Rightarrow>
             (let h1 = (heap s)[p := (heap s ! p)\<lparr>n_next := next'\<rparr>]
              in case next' of
                   None \<Rightarrow> Inl TypeError
                 | Some n \<Rightarrow> Inr (s\<lparr>heap := h1[n := (h1 ! n)\<lparr>n_prev := prev'\<rparr>]\<rparr>)))"

text \<open>\<^verbatim>\<open>_addToEnd\<close>: four assignments, each reading the heap that the one before left.\<close>

definition addToEnd :: "nat \<Rightarrow> lru_cache \<Rightarrow> error + lru_cache" where
  "addToEnd node' s =
     (let h0 = heap s;
          h1 = h0[node' := (h0 ! node')\<lparr>n_prev := n_prev (h0 ! tail s)\<rparr>];
          h2 = h1[node' := (h1 ! node')\<lparr>n_next := Some (tail s)\<rparr>]
      in case n_prev (h2 ! tail s) of
           None \<Rightarrow> Inl TypeError
         | Some l \<Rightarrow>
             (let h3 = h2[l := (h2 ! l)\<lparr>n_next := Some node'\<rparr>];
                  h4 = h3[tail s := (h3 ! tail s)\<lparr>n_prev := Some node'\<rparr>]
              in Inr (s\<lparr>heap := h4\<rparr>)))"

definition moveToEnd :: "nat \<Rightarrow> lru_cache \<Rightarrow> error + lru_cache" where
  "moveToEnd node' s =
     (case removeNode node' s of Inl e \<Rightarrow> Inl e | Inr s1 \<Rightarrow> addToEnd node' s1)"

text \<open>\<^verbatim>\<open>get\<close> returns the value together with the cache it leaves.\<close>

definition get :: "jsval \<Rightarrow> lru_cache \<Rightarrow> error + jsval \<times> lru_cache" where
  "get key' s =
     (if \<not> map_has key' (cache s) then Inr (Num (- 1), s)
      else
        (case map_get key' (cache s) of
           None \<Rightarrow> Inl TypeError
         | Some node' \<Rightarrow>
             (case moveToEnd node' s of
                Inl e \<Rightarrow> Inl e
              | Inr s1 \<Rightarrow> Inr (n_value (heap s1 ! node'), s1))))"

definition put :: "jsval \<Rightarrow> jsval \<Rightarrow> lru_cache \<Rightarrow> error + lru_cache" where
  "put key' value' s =
     (if map_has key' (cache s) then
        (case map_get key' (cache s) of
           None \<Rightarrow> Inl TypeError
         | Some node' \<Rightarrow>
             moveToEnd node' (s\<lparr>heap := (heap s)[node' := (heap s ! node')\<lparr>n_value := value'\<rparr>]\<rparr>))
      else
        (case (if int (length (cache s)) \<ge> capacity s then
                 (case n_next (heap s ! head s) of
                    None \<Rightarrow> Inl TypeError
                  | Some lruNode \<Rightarrow>
                      (case removeNode lruNode s of
                         Inl e \<Rightarrow> Inl e
                       | Inr s1 \<Rightarrow>
                           Inr (s1\<lparr>cache := map_delete (n_key (heap s1 ! lruNode)) (cache s1)\<rparr>)))
               else Inr s) of
           Inl e \<Rightarrow> Inl e
         | Inr s2 \<Rightarrow>
             (let newNode = length (heap s2);
                  s3 = s2\<lparr>heap := heap s2 @ [new_Node key' value']\<rparr>;
                  s4 = s3\<lparr>cache := map_set key' newNode (cache s3)\<rparr>
              in addToEnd newNode s4)))"

definition size' :: "lru_cache \<Rightarrow> nat" where
  "size' s = length (cache s)"

text \<open>
  \<^verbatim>\<open>keys\<close>: the loop \<^verbatim>\<open>while (current !== this.tail)\<close> follows the \<^verbatim>\<open>next\<close> fields.
  On a heap where they never reach the tail it does not return (the value \<open>None\<close>); on
  one where they reach \<^verbatim>\<open>null\<close> it raises.
\<close>

partial_function (option) keys_loop ::
  "lru_cache \<Rightarrow> nat option \<Rightarrow> jsval list \<Rightarrow> (error + jsval list) option" where
  "keys_loop s current result =
     (case current of
        None \<Rightarrow> Some (Inl TypeError)
      | Some c \<Rightarrow>
          if c = tail s then Some (Inr result)
          else keys_loop s (n_next (heap s ! c)) (result @ [n_key (heap s ! c)]))"

declare keys_loop.simps [code]

definition keys :: "lru_cache \<Rightarrow> (error + jsval list) option" where
  "keys s = keys_loop s (n_next (heap s ! head s)) []"

text \<open>A sequence of calls on one cache; an error ends it.\<close>

datatype llamada = Get jsval | Put jsval jsval

fun llamar :: "llamada \<Rightarrow> lru_cache \<Rightarrow> error + lru_cache" where
  "llamar (Get k) s = (case get k s of Inl e \<Rightarrow> Inl e | Inr r \<Rightarrow> Inr (snd r))"
| "llamar (Put k v) s = put k v s"

definition ejecutar :: "llamada list \<Rightarrow> lru_cache \<Rightarrow> error + lru_cache" where
  "ejecutar cs s = forEachE llamar cs s"

section \<open>Notions used by the statements\<close>

subsection \<open>The event counter\<close>

text \<open>The counter agrees with the four arrays: the invariant of every step of the run.\<close>

definition cuenta_ok :: "informe \<Rightarrow> bool" where
  "cuenta_ok rep =
     (total_eventos_sospechosos rep =
        length (ips_sospechosas rep) + length (ataques_fuerza_bruta rep)
        + length (endpoints_bajo_ataque rep) + length (anomalias_detectadas rep))"

subsection \<open>Example batches\<close>

text \<open>Two failed logins of one IP that arrive out of temporal order, under a strict policy.\<close>

definition logs_desordenados :: "log_record list" where
  "logs_desordenados =
     [\<lparr>ip = ''10.0.0.2'', endpoint = ''/api/login'', timestamp = 2000, status = 401,
       user_agent = ''curl'', response_time = 100\<rparr>,
      \<lparr>ip = ''10.0.0.2'', endpoint = ''/api/login'', timestamp = 1000, status = 401,
       user_agent = ''curl'', response_time = 100\<rparr>]"

definition config_estricta :: config where
  "config_estricta =
     \<lparr>max_requests_per_minute = 1, max_failed_logins = 1,
      suspicious_endpoints = [''/api/login'', ''/api/admin''], time_window = 60000\<rparr>"

subsection \<open>Grouping a list by key\<close>

text \<open>
  The source's idiom \<^verbatim>\<open>if (!m.has(k)) m.set(k, v0); ... m.get(k) ...\<close>: make sure the key
  is stored, then change its entry.
\<close>

definition registrar :: "'k \<Rightarrow> 'v \<Rightarrow> ('v \<Rightarrow> 'v) \<Rightarrow> ('k, 'v) js_map \<Rightarrow> ('k, 'v) js_map" where
  "registrar k v0 f m = map_modify k f (if \<not> map_has k m then map_set k v0 m else m)"

text \<open>One table of the run: the records that satisfy \<open>P\<close>, grouped by \<open>clave\<close>.\<close>

definition agrupar ::
  "('a \<Rightarrow> bool) \<Rightarrow> ('a \<Rightarrow> 'k) \<Rightarrow> 'v \<Rightarrow> ('a \<Rightarrow> 'v \<Rightarrow> 'v) \<Rightarrow> 'a list \<Rightarrow> ('k, 'v) js_map
   \<Rightarrow> ('k, 'v) js_map" where
  "agrupar P clave v0 g xs m =
     fold (\<lambda>x m. if P x then registrar (clave x) v0 (g x) m else m) xs m"

text \<open>The records of a batch that come from one IP, in arrival order.\<close>

definition de_ip :: "string \<Rightarrow> log_record list \<Rightarrow> log_record list" where
  "de_ip x logs = filter (\<lambda>lg. ip lg = x) logs"

text \<open>A failed login: a 401 or 403 answer on a suspicious endpoint.\<close>

definition es_fallo :: "config \<Rightarrow> log_record \<Rightarrow> bool" where
  "es_fallo config lg =
     (endpoint lg \<in> set (suspicious_endpoints config) \<and> (status lg = 401 \<or> status lg = 403))"

definition conteo_vacio :: conteo where
  "conteo_vacio = \<lparr>timestamps = [], count = 0\<rparr>"

definition anotar_request :: "log_record \<Rightarrow> conteo \<Rightarrow> conteo" where
  "anotar_request lg d = d\<lparr>timestamps := timestamps d @ [timestamp lg], count := count d + 1\<rparr>"

definition accesos_vacio :: accesos where
  "accesos_vacio = \<lparr>accesos_count = 0, ips = []\<rparr>"

definition anotar_acceso :: "log_record \<Rightarrow> accesos \<Rightarrow> accesos" where
  "anotar_acceso lg d = d\<lparr>accesos_count := accesos_count d + 1, ips := ips d @ [ip lg]\<rparr>"

text \<open>The records of a batch that reach one endpoint, in arrival order.\<close>

definition a_endpoint :: "string \<Rightarrow> log_record list \<Rightarrow> log_record list" where
  "a_endpoint e logs = filter (\<lambda>lg. endpoint lg = e) logs"

text \<open>The user-agent table that the run builds from the records of one IP.\<close>

definition tabla_user_agents :: "log_record list \<Rightarrow> objeto" where
  "tabla_user_agents ls = fold (\<lambda>lg. contar_user_agent (user_agent lg)) ls []"

subsection \<open>What one visit of a step appends\<close>

text \<open>
  Each step of the run visits the entries of one table and appends to one array. These
  functions give what a visit appends; the lemmas of the steps show that they do.
\<close>

definition primera_ventana :: "config \<Rightarrow> int list \<Rightarrow> nat \<Rightarrow> nat option" where
  "primera_ventana config ts i =
     find (\<lambda>j. js_gt (requests_per_minute config ts j) (max_requests_per_minute config))
       [i..<length ts]"

definition hallazgos_paso4 :: "config \<Rightarrow> string \<times> conteo \<Rightarrow> ip_sospechosa list" where
  "hallazgos_paso4 config entry =
     (case primera_ventana config (sort (timestamps (snd entry))) 0 of
        None \<Rightarrow> []
      | Some j \<Rightarrow>
          [\<lparr>s_ip = fst entry,
            requests_detectados = requests_per_minute config (sort (timestamps (snd entry))) j,
            s_limite_permitido = max_requests_per_minute config,
            ventana_minutos = real_of_int (time_window config) / 60000\<rparr>])"

definition tiempo_valido :: "int \<Rightarrow> bool" where
  "tiempo_valido ms = (\<bar>ms\<bar> \<le> 8640000000000000)"

definition hallazgos_paso5 :: "config \<Rightarrow> string \<times> conteo \<Rightarrow> ataque_fuerza_bruta list" where
  "hallazgos_paso5 config entry =
     (if int (count (snd entry)) > max_failed_logins config
      then [\<lparr>f_ip = fst entry, intentos_fallidos = count (snd entry),
             f_limite_permitido = max_failed_logins config,
             timestamps_intentos = timestamps (snd entry),
             primera_tentativa = hd (timestamps (snd entry)),
             ultima_tentativa = last (timestamps (snd entry))\<rparr>]
      else [])"

definition hallazgos_paso6 :: "string \<times> accesos \<Rightarrow> endpoint_bajo_ataque list" where
  "hallazgos_paso6 entry =
     (if length (remdups (ips (snd entry))) > 10
      then [\<lparr>e_endpoint = fst entry, total_accesos = accesos_count (snd entry),
             ips_unicas = length (remdups (ips (snd entry)))\<rparr>]
      else [])"

definition hallazgos_paso7 :: "string \<times> objeto \<Rightarrow> anomalia list" where
  "hallazgos_paso7 entry =
     (if length (object_keys (snd entry)) > 5
      then [MultiplesUserAgents (fst entry) (length (object_keys (snd entry)))
              (elemento (object_keys (snd entry))
                 (indexOf (object_values (snd entry)) (math_max (object_values (snd entry)))))
              (foldl js_add (Fin 0) (object_values (snd entry)))]
      else [])"

definition hallazgos_paso8 :: "string \<times> real list \<Rightarrow> anomalia list" where
  "hallazgos_paso8 entry =
     (if snd entry \<noteq> [] \<and> desv_estandar (snd entry) > promedio (snd entry) * 1.5
      then [TiemposIrregulares (fst entry) (promedio (snd entry)) (desv_estandar (snd entry))]
      else [])"

text \<open>A step that appends \<open>xs\<close> to one array counts \<open>length xs\<close> events.\<close>

definition mas_ips :: "ip_sospechosa list \<Rightarrow> informe \<Rightarrow> informe" where
  "mas_ips xs rep =
     rep\<lparr>ips_sospechosas := ips_sospechosas rep @ xs,
         total_eventos_sospechosos := total_eventos_sospechosos rep + length xs\<rparr>"

definition mas_ataques :: "ataque_fuerza_bruta list \<Rightarrow> informe \<Rightarrow> informe" where
  "mas_ataques xs rep =
     rep\<lparr>ataques_fuerza_bruta := ataques_fuerza_bruta rep @ xs,
         total_eventos_sospechosos := total_eventos_sospechosos rep + length xs\<rparr>"

definition mas_endpoints :: "endpoint_bajo_ataque list \<Rightarrow> informe \<Rightarrow> informe" where
  "mas_endpoints xs rep =
     rep\<lparr>endpoints_bajo_ataque := endpoints_bajo_ataque rep @ xs,
         total_eventos_sospechosos := total_eventos_sospechosos rep + length xs\<rparr>"

definition mas_anomalias :: "anomalia list \<Rightarrow> informe \<Rightarrow> informe" where
  "mas_anomalias xs rep =
     rep\<lparr>anomalias_detectadas := anomalias_detectadas rep @ xs,
         total_eventos_sospechosos := total_eventos_sospechosos rep + length xs\<rparr>"

text \<open>The entries of \<^verbatim>\<open>fallosLoginPorIP\<close> on which step 5 does not raise.\<close>

definition fechas_validas :: "config \<Rightarrow> string \<times> conteo \<Rightarrow> bool" where
  "fechas_validas config entry =
     (int (count (snd entry)) > max_failed_logins config \<longrightarrow>
        timestamps (snd entry) \<noteq> [] \<and> tiempo_valido (hd (timestamps (snd entry)))
        \<and> tiempo_valido (last (timestamps (snd entry))))"

subsection \<open>The notions of the detectors' statements\<close>

text \<open>The number of distinct IPs among the records that reach an endpoint.\<close>

definition ips_distintas :: "string \<Rightarrow> log_record list \<Rightarrow> nat" where
  "ips_distintas e logs = card (ip ` set (a_endpoint e logs))"

text \<open>Eleven IPs knock at \<^verbatim>\<open>/api/admin\<close>, the first of them twice.\<close>

definition visita :: "string \<Rightarrow> log_record" where
  "visita a =
     \<lparr>ip = a, endpoint = ''/api/admin'', timestamp = 0, status = 200,
      user_agent = ''Mozilla/5.0'', response_time = 100\<rparr>"

definition logs_masivos :: "log_record list" where
  "logs_masivos =
     map visita [''ip01'', ''ip02'', ''ip03'', ''ip04'', ''ip05'', ''ip06'', ''ip07'', ''ip08'',
                 ''ip09'', ''ip10'', ''ip11'', ''ip01'']"

definition config_ejemplo :: config where
  "config_ejemplo =
     \<lparr>max_requests_per_minute = 60, max_failed_logins = 5,
      suspicious_endpoints = [''/api/login'', ''/api/admin''], time_window = 60000\<rparr>"

text \<open>
  Step 4 in the words of its description. The timestamps of an IP, sorted ascending; the
  number of timestamps \<open>j \<ge> i\<close> within the window that starts at the \<open>i\<close>-th; that number
  divided by the window's length in minutes; the first window whose rate is over the limit.
\<close>

definition timestamps_ordenados :: "string \<Rightarrow> log_record list \<Rightarrow> int list" where
  "timestamps_ordenados x logs = sort (map timestamp (de_ip x logs))"






text \<open>
  One IP with four requests that arrive out of order, and one with a single request. With
  a limit of 2 per minute the window that starts at the first timestamp holds 2 requests,
  the window that starts at the second holds 3.
\<close>

definition peticion :: "string \<Rightarrow> int \<Rightarrow> log_record" where
  "peticion a t =
     \<lparr>ip = a, endpoint = ''/api/users'', timestamp = t, status = 200,
      user_agent = ''Mozilla/5.0'', response_time = 100\<rparr>"

definition logs_rafaga :: "log_record list" where
  "logs_rafaga =
     [peticion ''10.0.0.1'' 60001, peticion ''10.0.0.1'' 0, peticion ''10.0.0.9'' 7,
      peticion ''10.0.0.1'' 60002, peticion ''10.0.0.1'' 50000]"






text \<open>The failed logins of one IP, in arrival order.\<close>

definition fallos_de :: "config \<Rightarrow> string \<Rightarrow> log_record list \<Rightarrow> log_record list" where
  "fallos_de config x logs = filter (es_fallo config) (de_ip x logs)"








text \<open>
  Step 7 in the words of its description. The user agents of an IP in arrival order; the
  distinct values of a list in the order of their first appearance, which is the order in
  which a table receives its keys; the order in which \<^verbatim>\<open>Object.keys\<close> lists those
  keys; and the first key, in a given order, whose count no other key exceeds.
\<close>

definition agentes_de :: "string \<Rightarrow> log_record list \<Rightarrow> string list" where
  "agentes_de x logs = map user_agent (de_ip x logs)"

definition primeras_apariciones :: "'a list \<Rightarrow> 'a list" where
  "primeras_apariciones xs = rev (remdups (rev xs))"

definition orden_de_claves :: "string list \<Rightarrow> string list" where
  "orden_de_claves ks =
     sort_key valor_indice (filter is_array_index ks) @ filter (\<lambda>k. \<not> is_array_index k) ks"

definition primero_de_maximo :: "string list \<Rightarrow> (string \<Rightarrow> nat) \<Rightarrow> string option" where
  "primero_de_maximo ks veces = find (\<lambda>k. \<forall>k'\<in>set ks. veces k' \<le> veces k) ks"

definition es_multiple_de :: "string \<Rightarrow> anomalia \<Rightarrow> bool" where
  "es_multiple_de x f = (case f of MultiplesUserAgents y n a t \<Rightarrow> y = x | _ \<Rightarrow> False)"

text \<open>The table of step 3 for a list of user agents.\<close>

definition tabla_de_agentes :: "string list \<Rightarrow> objeto" where
  "tabla_de_agentes agentes = fold contar_user_agent agentes []"

text \<open>One IP that uses six user agents once each; the second of them is the string \<open>''1''\<close>.\<close>

definition con_agente :: "string \<Rightarrow> string \<Rightarrow> log_record" where
  "con_agente a ua =
     \<lparr>ip = a, endpoint = ''/api/users'', timestamp = 0, status = 200, user_agent = ua,
      response_time = 100\<rparr>"

definition logs_agentes :: "log_record list" where
  "logs_agentes =
     map (con_agente ''10.0.0.7'') [''curl'', ''1'', ''wget'', ''python'', ''java'', ''go'']"

text \<open>One IP that uses seven user agents, two of them twice; and one that uses five.\<close>

definition logs_siete_agentes :: "log_record list" where
  "logs_siete_agentes =
     map (con_agente ''10.0.0.7'')
       [''Mozilla/5.0'', ''curl'', ''wget'', ''curl'', ''python'', ''wget'', ''Postman'',
        ''insomnia'', ''java'']
     @ map (con_agente ''10.0.0.8'') [''Mozilla/5.0'', ''curl'', ''wget'', ''python'', ''java'']"

section \<open>Notions used by the statements about the cache\<close>

text \<open>
  The heap of a cache holds a doubly linked list. \<open>cadena h L\<close>: along the addresses of
  \<open>L\<close> each node's \<^verbatim>\<open>next\<close> is the following address and each node's \<^verbatim>\<open>prev\<close> the
  one before.
\<close>

fun cadena :: "node list \<Rightarrow> nat list \<Rightarrow> bool" where
  "cadena h (a # b # L) =
     (n_next (h ! a) = Some b \<and> n_prev (h ! b) = Some a \<and> cadena h (b # L))"
| "cadena h [a] = True"
| "cadena h [] = True"

text \<open>
  \<open>bien_formado s as\<close>: the list runs from the head sentinel through the nodes \<open>as\<close> to
  the tail sentinel, and the map holds exactly the keys of those nodes, each with the
  address of its node; there are at most \<open>capacity\<close> of them.
\<close>

definition bien_formado :: "lru_cache \<Rightarrow> nat list \<Rightarrow> bool" where
  "bien_formado s as =
     (head s = 0 \<and> tail s = 1 \<and> 0 < capacity s \<and> 2 \<le> length (heap s)
      \<and> distinct as \<and> (\<forall>a\<in>set as. 2 \<le> a \<and> a < length (heap s))
      \<and> cadena (heap s) (0 # as @ [1])
      \<and> distinct (map fst (cache s))
      \<and> set (cache s) = (\<lambda>a. (n_key (heap s ! a), a)) ` set as
      \<and> int (length as) \<le> capacity s)"

text \<open>The keys and values of the nodes \<open>as\<close>, least recently used first.\<close>

definition contenido :: "lru_cache \<Rightarrow> nat list \<Rightarrow> (jsval \<times> jsval) list" where
  "contenido s as = map (\<lambda>a. (n_key (heap s ! a), n_value (heap s ! a))) as"

text \<open>
  The cache as a list of keys with their values, least recently used first: what
  \<^verbatim>\<open>get\<close> and \<^verbatim>\<open>put\<close> do to it.
\<close>

definition sin_clave :: "jsval \<Rightarrow> (jsval \<times> jsval) list \<Rightarrow> (jsval \<times> jsval) list" where
  "sin_clave k xs = filter (\<lambda>p. fst p \<noteq> k) xs"

definition lista_get :: "jsval \<Rightarrow> (jsval \<times> jsval) list \<Rightarrow> jsval \<times> (jsval \<times> jsval) list" where
  "lista_get k xs =
     (case map_of xs k of
        None \<Rightarrow> (Num (- 1), xs)
      | Some v \<Rightarrow> (v, sin_clave k xs @ [(k, v)]))"

definition lista_put ::
  "int \<Rightarrow> jsval \<Rightarrow> jsval \<Rightarrow> (jsval \<times> jsval) list \<Rightarrow> (jsval \<times> jsval) list" where
  "lista_put cap k v xs =
     (if k \<in> fst ` set xs then sin_clave k xs @ [(k, v)]
      else (if int (length xs) \<ge> cap then tl xs else xs) @ [(k, v)])"

fun lista_llamar :: "int \<Rightarrow> llamada \<Rightarrow> (jsval \<times> jsval) list \<Rightarrow> (jsval \<times> jsval) list" where
  "lista_llamar cap (Get k) xs = snd (lista_get k xs)"
| "lista_llamar cap (Put k v) xs = lista_put cap k v xs"

text \<open>\<open>representa s xs\<close>: the cache \<open>s\<close> is well formed and holds the list \<open>xs\<close>.\<close>

definition representa :: "lru_cache \<Rightarrow> (jsval \<times> jsval) list \<Rightarrow> bool" where
  "representa s xs = (\<exists>as. bien_formado s as \<and> xs = contenido s as)"

text \<open>
  The key that a call touches, and the position of the last call of a history that touches
  a key.
\<close>

fun clave_de :: "llamada \<Rightarrow> jsval" where
  "clave_de (Get k) = k"
| "clave_de (Put k v) = k"

fun ultima_posicion :: "'a list \<Rightarrow> 'a \<Rightarrow> nat" where
  "ultima_posicion [] k = 0"
| "ultima_posicion (z # zs) k = (if k \<in> set zs then Suc (ultima_posicion zs k) else 0)"

definition ultimo_toque :: "llamada list \<Rightarrow> jsval \<Rightarrow> nat" where
  "ultimo_toque cs k = ultima_posicion (map clave_de cs) k"

text \<open>The value that the cache stores for a key.\<close>

definition valor_guardado :: "lru_cache \<Rightarrow> jsval \<Rightarrow> jsval option" where
  "valor_guardado s k =
     (case map_get k (cache s) of None \<Rightarrow> None | Some a \<Rightarrow> Some (n_value (heap s ! a)))"

text \<open>
  The calls of the first test of the source, on a cache of capacity 3: four calls, and
  then the \<^verbatim>\<open>put\<close> of a fourth key.
\<close>

definition llamadas_antes :: "llamada list" where
  "llamadas_antes =
     [Put (Str ''a'') (Num 1), Put (Str ''b'') (Num 2), Put (Str ''c'') (Num 3),
      Get (Str ''a'')]"

definition llamadas_test1 :: "llamada list" where
  "llamadas_test1 = llamadas_antes @ [Put (Str ''d'') (Num 4)]"

text \<open>A cache that stores the value \<open>-1\<close>.\<close>

definition llamadas_menos_uno :: "llamada list" where
  "llamadas_menos_uno = [Put (Str ''x'') (Num (- 1))]"

section \<open>Evaluating the detector\<close>

lemmas detector_defs =
  detectarActividadSospechosa_def paso3_def procesar_log_def tablas_iniciales_def
  informe_inicial_def paso4_def paso4_ip_def paso5_def paso5_ip_def paso6_def
  paso6_endpoint_def paso7_def paso7_ip_def paso8_def paso8_ip_def map_has_def
  toISOString_def elemento_def contar_user_agent_def obj_get_def obj_set_def
  object_prototype_names_def object_keys_def object_values_def object_entries_def
  is_array_index_def digito_def valor_indice_def math_max_def promedio_def varianza_def
  desv_estandar_def requests_per_minute_def js_div_def bucle_i.simps bucle_j.simps Let_def

lemma run_logs_desordenados:
  "detectarActividadSospechosa logs_desordenados config_estricta =
     Inr \<lparr>ips_sospechosas =
            [\<lparr>s_ip = ''10.0.0.2'', requests_detectados = Fin 2, s_limite_permitido = 1,
              ventana_minutos = 1\<rparr>],
          ataques_fuerza_bruta =
            [\<lparr>f_ip = ''10.0.0.2'', intentos_fallidos = 2, f_limite_permitido = 1,
              timestamps_intentos = [2000, 1000], primera_tentativa = 2000,
              ultima_tentativa = 1000\<rparr>],
          endpoints_bajo_ataque = [], anomalias_detectadas = [],
          total_eventos_sospechosos = 2\<rparr>"
  by (simp add: logs_desordenados_def config_estricta_def detector_defs)

section \<open>The event counter\<close>

lemma fold_preserva: "(\<And>x s. P s \<Longrightarrow> P (f x s)) \<Longrightarrow> P s \<Longrightarrow> P (fold f xs s)"
  by (induction xs arbitrary: s) auto

lemma forEachE_preserva:
  "(\<And>x s s'. P s \<Longrightarrow> f x s = Inr s' \<Longrightarrow> P s') \<Longrightarrow> P s \<Longrightarrow>
   forEachE f xs s = Inr s' \<Longrightarrow> P s'"
  by (induction xs arbitrary: s) (auto split: sum.splits)

lemma cuenta_ok_bucle_i: "cuenta_ok rep \<Longrightarrow> cuenta_ok (bucle_i config x ts i rep)"
proof (induction config x ts i rep rule: bucle_i.induct)
  case (1 config ip' timestamps' i rep)
  then show ?case
    by (subst bucle_i.simps) (auto simp: cuenta_ok_def)
qed

lemma cuenta_ok_paso4: "cuenta_ok rep \<Longrightarrow> cuenta_ok (paso4 config t rep)"
  unfolding paso4_def by (rule fold_preserva) (simp_all add: paso4_ip_def cuenta_ok_bucle_i)

lemma cuenta_ok_paso5_ip:
  "cuenta_ok rep \<Longrightarrow> paso5_ip config e rep = Inr rep' \<Longrightarrow> cuenta_ok rep'"
  by (auto simp: paso5_ip_def Let_def cuenta_ok_def split: if_splits sum.splits)

lemma cuenta_ok_paso5: "cuenta_ok rep \<Longrightarrow> paso5 config t rep = Inr rep' \<Longrightarrow> cuenta_ok rep'"
  unfolding paso5_def by (erule forEachE_preserva[rotated]) (auto intro: cuenta_ok_paso5_ip)

lemma cuenta_ok_paso6: "cuenta_ok rep \<Longrightarrow> cuenta_ok (paso6 t rep)"
  unfolding paso6_def
  by (rule fold_preserva) (auto simp: paso6_endpoint_def Let_def cuenta_ok_def)

lemma cuenta_ok_paso7: "cuenta_ok rep \<Longrightarrow> cuenta_ok (paso7 t rep)"
  unfolding paso7_def by (rule fold_preserva) (auto simp: paso7_ip_def Let_def cuenta_ok_def)

lemma cuenta_ok_paso8: "cuenta_ok rep \<Longrightarrow> cuenta_ok (paso8 t rep)"
  unfolding paso8_def by (rule fold_preserva) (auto simp: paso8_ip_def Let_def cuenta_ok_def)

lemma detectar_Inr:
  "detectarActividadSospechosa logs config = Inr r \<Longrightarrow>
   \<exists>rep5. paso5 config (paso3 config logs) (paso4 config (paso3 config logs) informe_inicial)
             = Inr rep5
          \<and> r = paso8 (paso3 config logs) (paso7 (paso3 config logs)
                   (paso6 (paso3 config logs) rep5))"
  by (auto simp: detectarActividadSospechosa_def Let_def split: sum.splits)

text \<open>
  C8. The report that a run returns has \<^verbatim>\<open>total_eventos_sospechosos\<close> equal to the sum
  of the lengths of its four arrays of findings: each push goes with one increment, so a
  finding counts once however many log lines it sums up.
\<close>

theorem total_eventos_es_suma:
  assumes "detectarActividadSospechosa logs config = Inr r"
  shows "total_eventos_sospechosos r =
           length (ips_sospechosas r) + length (ataques_fuerza_bruta r)
           + length (endpoints_bajo_ataque r) + length (anomalias_detectadas r)"
proof -
  have 0: "cuenta_ok informe_inicial"
    by (simp add: cuenta_ok_def informe_inicial_def)
  from detectar_Inr[OF assms] obtain rep5 where
    5: "paso5 config (paso3 config logs) (paso4 config (paso3 config logs) informe_inicial)
          = Inr rep5"
    and r: "r = paso8 (paso3 config logs) (paso7 (paso3 config logs)
                  (paso6 (paso3 config logs) rep5))"
    by blast
  have "cuenta_ok rep5"
    using cuenta_ok_paso5[OF cuenta_ok_paso4[OF 0] 5] .
  then have "cuenta_ok r"
    unfolding r by (intro cuenta_ok_paso8 cuenta_ok_paso7 cuenta_ok_paso6)
  then show ?thesis
    by (simp add: cuenta_ok_def)
qed

theorem total_eventos_es_suma_witness:
  "\<exists>r. detectarActividadSospechosa logs_desordenados config_estricta = Inr r
       \<and> length (ips_sospechosas r) = 1 \<and> length (ataques_fuerza_bruta r) = 1
       \<and> total_eventos_sospechosos r = 2
       \<and> total_eventos_sospechosos r =
           length (ips_sospechosas r) + length (ataques_fuerza_bruta r)
           + length (endpoints_bajo_ataque r) + length (anomalias_detectadas r)"
  using total_eventos_es_suma[OF run_logs_desordenados] run_logs_desordenados by simp

section \<open>Maps as association lists\<close>

lemma map_of_map_set: "map_of (map_set k v m) = (map_of m)(k \<mapsto> v)"
  by (induction m) (auto simp: fun_eq_iff)

lemma keys_map_set:
  "map fst (map_set k v m) = (if k \<in> fst ` set m then map fst m else map fst m @ [k])"
  by (induction m) force+

lemma map_of_map_modify:
  "map_of (map_modify k f m) k' = (if k' = k then map_option f (map_of m k) else map_of m k')"
  by (induction m) auto

lemma keys_map_modify: "map fst (map_modify k f m) = map fst m"
  by (induction m) auto

lemma map_modify_map_modify: "map_modify k f (map_modify k g m) = map_modify k (f \<circ> g) m"
  by (induction m) auto

lemma map_has_iff: "map_has k m \<longleftrightarrow> k \<in> fst ` set m"
  by (simp add: map_has_def map_of_eq_None_iff)

lemma map_of_registrar:
  "map_of (registrar k v0 f m) k' =
     (if k' = k then Some (f (case map_of m k of None \<Rightarrow> v0 | Some v \<Rightarrow> v)) else map_of m k')"
  by (auto simp: registrar_def map_of_map_modify map_of_map_set map_has_def split: option.splits)

lemma keys_registrar:
  "map fst (registrar k v0 f m) = (if k \<in> fst ` set m then map fst m else map fst m @ [k])"
  by (simp add: registrar_def keys_map_modify keys_map_set map_has_iff)

lemma distinct_registrar: "distinct (map fst m) \<Longrightarrow> distinct (map fst (registrar k v0 f m))"
  by (simp add: keys_registrar)

lemma agrupar_Nil: "agrupar P clave v0 g [] m = m"
  by (simp add: agrupar_def)

lemma agrupar_Cons:
  "agrupar P clave v0 g (x # xs) m =
     agrupar P clave v0 g xs (if P x then registrar (clave x) v0 (g x) m else m)"
  by (simp add: agrupar_def)

lemma distinct_agrupar:
  "distinct (map fst m) \<Longrightarrow> distinct (map fst (agrupar P clave v0 g xs m))"
  by (induction xs arbitrary: m) (simp_all add: agrupar_Nil agrupar_Cons distinct_registrar)

lemma keys_agrupar:
  "fst ` set (agrupar P clave v0 g xs m) = fst ` set m \<union> clave ` {x \<in> set xs. P x}"
proof (induction xs arbitrary: m)
  case Nil
  show ?case by (simp add: agrupar_Nil)
next
  case (Cons x xs)
  have "fst ` set (registrar (clave x) v0 (g x) m) = insert (clave x) (fst ` set m)"
    using arg_cong[OF keys_registrar[of "clave x" v0 "g x" m], of set] by (auto simp: image_iff)
  with Cons show ?case
    by (auto simp: agrupar_Cons)
qed

lemma map_of_agrupar:
  "map_of (agrupar P clave v0 g xs m) k =
     (if filter (\<lambda>x. P x \<and> clave x = k) xs = [] then map_of m k
      else Some (fold g (filter (\<lambda>x. P x \<and> clave x = k) xs)
                   (case map_of m k of None \<Rightarrow> v0 | Some v \<Rightarrow> v)))"
proof (induction xs arbitrary: m)
  case Nil
  show ?case by (simp add: agrupar_Nil)
next
  case (Cons x xs)
  show ?case
    by (simp add: agrupar_Cons Cons.IH map_of_registrar)
qed

section \<open>The tables that step 3 builds\<close>

lemma anotar_request_comp:
  "(\<lambda>d::conteo. d\<lparr>count := count d + 1\<rparr>) \<circ> (\<lambda>d. d\<lparr>timestamps := timestamps d @ [timestamp lg]\<rparr>)
     = anotar_request lg"
  "(\<lambda>d::conteo. d\<lparr>timestamps := timestamps d @ [timestamp lg]\<rparr>) \<circ> (\<lambda>d. d\<lparr>count := count d + 1\<rparr>)
     = anotar_request lg"
  by (simp_all add: fun_eq_iff anotar_request_def)

lemma anotar_acceso_comp:
  "(\<lambda>d::accesos. d\<lparr>ips := ips d @ [ip lg]\<rparr>) \<circ> (\<lambda>d. d\<lparr>accesos_count := accesos_count d + 1\<rparr>)
     = anotar_acceso lg"
  by (simp add: fun_eq_iff anotar_acceso_def)

lemma requestsPorIP_procesar_log:
  "requestsPorIP (procesar_log config lg t) =
     registrar (ip lg) conteo_vacio (anotar_request lg) (requestsPorIP t)"
  unfolding procesar_log_def Let_def map_modify_map_modify anotar_request_comp
  by (simp add: registrar_def conteo_vacio_def)

lemma fallosLoginPorIP_procesar_log:
  "fallosLoginPorIP (procesar_log config lg t) =
     (if es_fallo config lg
      then registrar (ip lg) conteo_vacio (anotar_request lg) (fallosLoginPorIP t)
      else fallosLoginPorIP t)"
  unfolding procesar_log_def Let_def map_modify_map_modify anotar_request_comp
  by (auto simp: registrar_def conteo_vacio_def es_fallo_def)

lemma accesosEndpointSensible_procesar_log:
  "accesosEndpointSensible (procesar_log config lg t) =
     (if endpoint lg \<in> set (suspicious_endpoints config)
      then registrar (endpoint lg) accesos_vacio (anotar_acceso lg) (accesosEndpointSensible t)
      else accesosEndpointSensible t)"
  unfolding procesar_log_def Let_def map_modify_map_modify anotar_acceso_comp
  by (simp add: registrar_def accesos_vacio_def)

lemma userAgentsPorIP_procesar_log:
  "userAgentsPorIP (procesar_log config lg t) =
     registrar (ip lg) [] (contar_user_agent (user_agent lg)) (userAgentsPorIP t)"
  by (simp add: procesar_log_def Let_def registrar_def)


lemma requestsPorIP_fold:
  "requestsPorIP (fold (procesar_log config) logs t) =
     agrupar (\<lambda>lg. True) ip conteo_vacio anotar_request logs (requestsPorIP t)"
  by (induction logs arbitrary: t) (simp_all add: agrupar_Nil agrupar_Cons requestsPorIP_procesar_log)

lemma fallosLoginPorIP_fold:
  "fallosLoginPorIP (fold (procesar_log config) logs t) =
     agrupar (es_fallo config) ip conteo_vacio anotar_request logs (fallosLoginPorIP t)"
  by (induction logs arbitrary: t)
    (simp_all add: agrupar_Nil agrupar_Cons fallosLoginPorIP_procesar_log)

lemma accesosEndpointSensible_fold:
  "accesosEndpointSensible (fold (procesar_log config) logs t) =
     agrupar (\<lambda>lg. endpoint lg \<in> set (suspicious_endpoints config)) endpoint accesos_vacio
       anotar_acceso logs (accesosEndpointSensible t)"
  by (induction logs arbitrary: t)
    (simp_all add: agrupar_Nil agrupar_Cons accesosEndpointSensible_procesar_log)

lemma userAgentsPorIP_fold:
  "userAgentsPorIP (fold (procesar_log config) logs t) =
     agrupar (\<lambda>lg. True) ip [] (\<lambda>lg. contar_user_agent (user_agent lg)) logs (userAgentsPorIP t)"
  by (induction logs arbitrary: t)
    (simp_all add: agrupar_Nil agrupar_Cons userAgentsPorIP_procesar_log)


lemma fold_anotar_request:
  "fold anotar_request ls d =
     d\<lparr>timestamps := timestamps d @ map timestamp ls, count := count d + length ls\<rparr>"
  by (induction ls arbitrary: d) (simp_all add: anotar_request_def)

lemma fold_anotar_acceso:
  "fold anotar_acceso ls d =
     d\<lparr>accesos_count := accesos_count d + length ls, ips := ips d @ map ip ls\<rparr>"
  by (induction ls arbitrary: d) (simp_all add: anotar_acceso_def)


lemma distinct_requestsPorIP: "distinct (map fst (requestsPorIP (paso3 config logs)))"
  by (simp add: paso3_def requestsPorIP_fold distinct_agrupar tablas_iniciales_def)

lemma distinct_fallosLoginPorIP: "distinct (map fst (fallosLoginPorIP (paso3 config logs)))"
  by (simp add: paso3_def fallosLoginPorIP_fold distinct_agrupar tablas_iniciales_def)

lemma distinct_accesosEndpointSensible:
  "distinct (map fst (accesosEndpointSensible (paso3 config logs)))"
  by (simp add: paso3_def accesosEndpointSensible_fold distinct_agrupar tablas_iniciales_def)

lemma distinct_userAgentsPorIP: "distinct (map fst (userAgentsPorIP (paso3 config logs)))"
  by (simp add: paso3_def userAgentsPorIP_fold distinct_agrupar tablas_iniciales_def)



lemma filter_fallo_de_ip:
  "filter (\<lambda>lg. es_fallo config lg \<and> ip lg = x) logs = filter (es_fallo config) (de_ip x logs)"
  by (simp add: de_ip_def conj_commute)

lemma map_of_fallosLoginPorIP:
  "map_of (fallosLoginPorIP (paso3 config logs)) x =
     (if filter (es_fallo config) (de_ip x logs) = [] then None
      else Some \<lparr>timestamps = map timestamp (filter (es_fallo config) (de_ip x logs)),
                 count = length (filter (es_fallo config) (de_ip x logs))\<rparr>)"
  by (simp add: paso3_def fallosLoginPorIP_fold map_of_agrupar tablas_iniciales_def
      filter_fallo_de_ip fold_anotar_request conteo_vacio_def)

lemma filter_sospechoso_a_endpoint:
  "filter (\<lambda>lg. endpoint lg \<in> set (suspicious_endpoints config) \<and> endpoint lg = e) logs =
     (if e \<in> set (suspicious_endpoints config) then a_endpoint e logs else [])"
  by (induction logs) (auto simp: a_endpoint_def)

lemma map_of_accesosEndpointSensible:
  "map_of (accesosEndpointSensible (paso3 config logs)) e =
     (if e \<in> set (suspicious_endpoints config) \<and> a_endpoint e logs \<noteq> []
      then Some \<lparr>accesos_count = length (a_endpoint e logs), ips = map ip (a_endpoint e logs)\<rparr>
      else None)"
  by (simp add: paso3_def accesosEndpointSensible_fold map_of_agrupar tablas_iniciales_def
      filter_sospechoso_a_endpoint fold_anotar_acceso accesos_vacio_def)

lemma map_of_userAgentsPorIP:
  "map_of (userAgentsPorIP (paso3 config logs)) x =
     (if de_ip x logs = [] then None else Some (tabla_user_agents (de_ip x logs)))"
  by (simp add: paso3_def userAgentsPorIP_fold map_of_agrupar tablas_iniciales_def de_ip_def
      tabla_user_agents_def)


section \<open>The steps as appends\<close>

lemma mas_ips_Nil: "mas_ips [] rep = rep"
  by (simp add: mas_ips_def)

lemma mas_ataques_Nil: "mas_ataques [] rep = rep"
  by (simp add: mas_ataques_def)

lemma mas_endpoints_Nil: "mas_endpoints [] rep = rep"
  by (simp add: mas_endpoints_def)

lemma mas_anomalias_Nil: "mas_anomalias [] rep = rep"
  by (simp add: mas_anomalias_def)

lemma mas_ips_mas_ips: "mas_ips ys (mas_ips xs rep) = mas_ips (xs @ ys) rep"
  by (simp add: mas_ips_def)

lemma mas_ataques_mas_ataques: "mas_ataques ys (mas_ataques xs rep) = mas_ataques (xs @ ys) rep"
  by (simp add: mas_ataques_def)

lemma mas_endpoints_mas_endpoints:
  "mas_endpoints ys (mas_endpoints xs rep) = mas_endpoints (xs @ ys) rep"
  by (simp add: mas_endpoints_def)

lemma mas_anomalias_mas_anomalias:
  "mas_anomalias ys (mas_anomalias xs rep) = mas_anomalias (xs @ ys) rep"
  by (simp add: mas_anomalias_def)

lemma paso6_endpoint_mas: "paso6_endpoint entry rep = mas_endpoints (hallazgos_paso6 entry) rep"
  by (simp add: paso6_endpoint_def hallazgos_paso6_def mas_endpoints_def Let_def)

lemma paso7_ip_mas: "paso7_ip entry rep = mas_anomalias (hallazgos_paso7 entry) rep"
  by (simp add: paso7_ip_def hallazgos_paso7_def mas_anomalias_def Let_def)

lemma paso8_ip_mas: "paso8_ip entry rep = mas_anomalias (hallazgos_paso8 entry) rep"
  by (simp add: paso8_ip_def hallazgos_paso8_def mas_anomalias_def Let_def)

lemma fold_mas_endpoints:
  assumes "\<And>e rep. step e rep = mas_endpoints (f e) rep"
  shows "fold step es rep = mas_endpoints (concat (map f es)) rep"
  by (induction es arbitrary: rep)
    (simp_all add: assms mas_endpoints_Nil mas_endpoints_mas_endpoints)

lemma fold_mas_anomalias:
  assumes "\<And>e rep. step e rep = mas_anomalias (f e) rep"
  shows "fold step es rep = mas_anomalias (concat (map f es)) rep"
  by (induction es arbitrary: rep)
    (simp_all add: assms mas_anomalias_Nil mas_anomalias_mas_anomalias)

lemma paso6_mas:
  "paso6 t rep = mas_endpoints (concat (map hallazgos_paso6 (accesosEndpointSensible t))) rep"
  unfolding paso6_def by (rule fold_mas_endpoints) (rule paso6_endpoint_mas)

lemma paso7_mas:
  "paso7 t rep = mas_anomalias (concat (map hallazgos_paso7 (userAgentsPorIP t))) rep"
  unfolding paso7_def by (rule fold_mas_anomalias) (rule paso7_ip_mas)

lemma paso8_mas:
  "paso8 t rep = mas_anomalias (concat (map hallazgos_paso8 (tiemposRespuestaPorIP t))) rep"
  unfolding paso8_def by (rule fold_mas_anomalias) (rule paso8_ip_mas)

text \<open>Step 5 either raises or appends.\<close>

lemma paso5_ip_cases:
  "paso5_ip config entry rep =
     (if int (count (snd entry)) > max_failed_logins config
         \<and> \<not> (timestamps (snd entry) \<noteq> [] \<and> tiempo_valido (hd (timestamps (snd entry)))
               \<and> tiempo_valido (last (timestamps (snd entry))))
      then Inl RangeError
      else Inr (mas_ataques (hallazgos_paso5 config entry) rep))"
  by (cases "timestamps (snd entry)")
    (auto simp: paso5_ip_def hallazgos_paso5_def mas_ataques_def Let_def toISOString_def
      elemento_def tiempo_valido_def last_conv_nth hd_conv_nth)

lemma forEachE_paso5:
  "forEachE (paso5_ip config) es rep =
     (if list_all (fechas_validas config) es
      then Inr (mas_ataques (concat (map (hallazgos_paso5 config) es)) rep)
      else Inl RangeError)"
proof (induction es arbitrary: rep)
  case Nil
  show ?case by (simp add: mas_ataques_Nil)
next
  case (Cons e es)
  show ?case
    by (auto simp: paso5_ip_cases[of config e rep] Cons.IH fechas_validas_def
        mas_ataques_mas_ataques)
qed

lemma paso5_mas:
  "paso5 config t rep =
     (if list_all (fechas_validas config) (fallosLoginPorIP t)
      then Inr (mas_ataques (concat (map (hallazgos_paso5 config) (fallosLoginPorIP t))) rep)
      else Inl RangeError)"
  by (simp add: paso5_def forEachE_paso5)

text \<open>Step 4: the outer loop stops at the first window over the limit.\<close>

lemma primera_ventana_fuera: "\<not> i < length ts \<Longrightarrow> primera_ventana config ts i = None"
  by (simp add: primera_ventana_def)

lemma primera_ventana_paso:
  "i < length ts \<Longrightarrow>
   primera_ventana config ts i =
     (if js_gt (requests_per_minute config ts i) (max_requests_per_minute config) then Some i
      else primera_ventana config ts (i + 1))"
  by (simp add: primera_ventana_def upt_conv_Cons)

lemma bucle_i_mas:
  "bucle_i config x ts i rep =
     (case primera_ventana config ts i of
        None \<Rightarrow> rep
      | Some j \<Rightarrow>
          if find (\<lambda>item. s_ip item = x) (ips_sospechosas rep) = None
          then mas_ips [\<lparr>s_ip = x, requests_detectados = requests_per_minute config ts j,
                         s_limite_permitido = max_requests_per_minute config,
                         ventana_minutos = real_of_int (time_window config) / 60000\<rparr>] rep
          else rep)"
proof (induction config x ts i rep rule: bucle_i.induct)
  case (1 config ip' timestamps' i rep)
  show ?case
  proof (cases "i < length timestamps'")
    case False
    then show ?thesis
      by (subst bucle_i.simps) (simp add: primera_ventana_fuera)
  next
    case True
    show ?thesis
    proof (cases "js_gt (requests_per_minute config timestamps' i) (max_requests_per_minute config)")
      case True
      with \<open>i < length timestamps'\<close> show ?thesis
        by (subst bucle_i.simps) (simp add: primera_ventana_paso mas_ips_def)
    next
      case False
      with \<open>i < length timestamps'\<close> "1.IH" show ?thesis
        by (subst bucle_i.simps) (simp add: primera_ventana_paso)
    qed
  qed
qed

lemma paso4_ip_mas:
  "paso4_ip config entry rep =
     (if find (\<lambda>item. s_ip item = fst entry) (ips_sospechosas rep) = None
      then mas_ips (hallazgos_paso4 config entry) rep else rep)"
  by (simp add: paso4_ip_def bucle_i_mas hallazgos_paso4_def mas_ips_Nil split: option.splits)

lemma s_ip_hallazgos_paso4: "f \<in> set (hallazgos_paso4 config entry) \<Longrightarrow> s_ip f = fst entry"
  by (auto simp: hallazgos_paso4_def split: option.splits)

lemma fold_paso4_ip:
  assumes "distinct (map fst es)"
    and "\<And>item. item \<in> set (ips_sospechosas rep) \<Longrightarrow> s_ip item \<notin> fst ` set es"
  shows "fold (paso4_ip config) es rep = mas_ips (concat (map (hallazgos_paso4 config) es)) rep"
  using assms
proof (induction es arbitrary: rep)
  case Nil
  show ?case by (simp add: mas_ips_Nil)
next
  case (Cons e es)
  have libre: "find (\<lambda>item. s_ip item = fst e) (ips_sospechosas rep) = None"
    using Cons.prems(2) by (force simp: find_None_iff)
  have paso: "paso4_ip config e rep = mas_ips (hallazgos_paso4 config e) rep"
    by (simp add: paso4_ip_mas libre)
  have resto: "fold (paso4_ip config) es (mas_ips (hallazgos_paso4 config e) rep) =
        mas_ips (concat (map (hallazgos_paso4 config) es)) (mas_ips (hallazgos_paso4 config e) rep)"
  proof (rule Cons.IH)
    show "distinct (map fst es)" using Cons.prems(1) by simp
  next
    fix item
    assume "item \<in> set (ips_sospechosas (mas_ips (hallazgos_paso4 config e) rep))"
    then consider "item \<in> set (ips_sospechosas rep)" | "item \<in> set (hallazgos_paso4 config e)"
      by (auto simp: mas_ips_def)
    then show "s_ip item \<notin> fst ` set es"
    proof cases
      case 1
      then show ?thesis using Cons.prems(2)[of item] by auto
    next
      case 2
      then have "s_ip item = fst e" by (rule s_ip_hallazgos_paso4)
      then show ?thesis using Cons.prems(1) by auto
    qed
  qed
  show ?case
    by (simp add: paso resto mas_ips_mas_ips)
qed

lemma paso4_mas:
  "paso4 config (paso3 config logs) informe_inicial =
     mas_ips (concat (map (hallazgos_paso4 config) (requestsPorIP (paso3 config logs))))
       informe_inicial"
  unfolding paso4_def
  by (rule fold_paso4_ip) (simp_all add: distinct_requestsPorIP informe_inicial_def)

text \<open>The whole run, as one append per step.\<close>

lemma detectar_mas:
  "detectarActividadSospechosa logs config =
     (let t = paso3 config logs in
      if list_all (fechas_validas config) (fallosLoginPorIP t)
      then Inr (mas_anomalias (concat (map hallazgos_paso8 (tiemposRespuestaPorIP t)))
             (mas_anomalias (concat (map hallazgos_paso7 (userAgentsPorIP t)))
               (mas_endpoints (concat (map hallazgos_paso6 (accesosEndpointSensible t)))
                 (mas_ataques (concat (map (hallazgos_paso5 config) (fallosLoginPorIP t)))
                   (mas_ips (concat (map (hallazgos_paso4 config) (requestsPorIP t)))
                      informe_inicial)))))
      else Inl RangeError)"
  by (simp add: detectarActividadSospechosa_def Let_def paso4_mas paso5_mas paso6_mas paso7_mas
      paso8_mas)

lemma detectar_campos:
  assumes "detectarActividadSospechosa logs config = Inr r"
  shows "ips_sospechosas r =
           concat (map (hallazgos_paso4 config) (requestsPorIP (paso3 config logs)))"
    and "ataques_fuerza_bruta r =
           concat (map (hallazgos_paso5 config) (fallosLoginPorIP (paso3 config logs)))"
    and "endpoints_bajo_ataque r =
           concat (map hallazgos_paso6 (accesosEndpointSensible (paso3 config logs)))"
    and "anomalias_detectadas r =
           concat (map hallazgos_paso7 (userAgentsPorIP (paso3 config logs)))
           @ concat (map hallazgos_paso8 (tiemposRespuestaPorIP (paso3 config logs)))"
  using assms
  by (auto simp: detectar_mas Let_def mas_ips_def mas_ataques_def mas_endpoints_def
      mas_anomalias_def informe_inicial_def split: if_splits)

text \<open>The findings of one key come from the entry of that key.\<close>

lemma filter_concat_clave:
  assumes "distinct (map fst es)"
    and "\<And>e f. e \<in> set es \<Longrightarrow> f \<in> set (out e) \<Longrightarrow> clave f = fst e"
  shows "filter (\<lambda>f. clave f = x) (concat (map out es)) =
           (case map_of es x of None \<Rightarrow> [] | Some d \<Rightarrow> filter (\<lambda>f. clave f = x) (out (x, d)))"
  using assms
proof (induction es)
  case Nil
  show ?case by simp
next
  case (Cons e es)
  obtain k d where e: "e = (k, d)" by (cases e)
  have IH: "filter (\<lambda>f. clave f = x) (concat (map out es)) =
           (case map_of es x of None \<Rightarrow> [] | Some d \<Rightarrow> filter (\<lambda>f. clave f = x) (out (x, d)))"
    using Cons by simp
  have todos: "\<And>f. f \<in> set (out (k, d)) \<Longrightarrow> clave f = k"
    using Cons.prems(2)[of e] by (simp add: e)
  show ?case
  proof (cases "k = x")
    case True
    then have "map_of es x = None"
      using Cons.prems(1) by (simp add: e map_of_eq_None_iff)
    then show ?thesis
      using True by (simp add: e IH)
  next
    case False
    then have "filter (\<lambda>f. clave f = x) (out (k, d)) = []"
      using todos by (auto simp: filter_empty_conv)
    then show ?thesis
      using False by (simp add: e IH)
  qed
qed

section \<open>When the run returns\<close>

lemma hd_last_en_set: "xs \<noteq> [] \<Longrightarrow> hd xs \<in> set xs \<and> last xs \<in> set xs"
  by simp

lemma fechas_validas_paso3:
  assumes "\<And>lg. lg \<in> set logs \<Longrightarrow> tiempo_valido (timestamp lg)"
  shows "list_all (fechas_validas config) (fallosLoginPorIP (paso3 config logs))"
proof -
  have "fechas_validas config e" if e: "e \<in> set (fallosLoginPorIP (paso3 config logs))" for e
  proof -
    obtain k d where kd: "e = (k, d)" by (cases e)
    have "map_of (fallosLoginPorIP (paso3 config logs)) k = Some d"
      using e distinct_fallosLoginPorIP[of config logs] by (simp add: kd)
    then have "filter (es_fallo config) (de_ip k logs) \<noteq> [] \<and>
        d = \<lparr>timestamps = map timestamp (filter (es_fallo config) (de_ip k logs)),
              count = length (filter (es_fallo config) (de_ip k logs))\<rparr>"
      unfolding map_of_fallosLoginPorIP by (simp split: if_splits)
    then have d: "timestamps d = map timestamp (filter (es_fallo config) (de_ip k logs))"
      and ne: "filter (es_fallo config) (de_ip k logs) \<noteq> []"
      by simp_all
    have "set (timestamps d) \<subseteq> timestamp ` set logs"
      by (auto simp: d de_ip_def)
    moreover have "timestamps d \<noteq> []"
      using ne by (simp add: d)
    ultimately have "hd (timestamps d) \<in> timestamp ` set logs"
      and "last (timestamps d) \<in> timestamp ` set logs"
      using hd_last_en_set[of "timestamps d"] by auto
    then have "tiempo_valido (hd (timestamps d)) \<and> tiempo_valido (last (timestamps d))"
      using assms by auto
    with \<open>timestamps d \<noteq> []\<close> show ?thesis
      by (simp add: fechas_validas_def kd)
  qed
  then show ?thesis
    by (simp add: list_all_iff)
qed

lemma detectar_devuelve:
  assumes "\<And>lg. lg \<in> set logs \<Longrightarrow> tiempo_valido (timestamp lg)"
  shows "\<exists>r. detectarActividadSospechosa logs config = Inr r"
  by (simp add: detectar_mas Let_def fechas_validas_paso3[OF assms])

section \<open>Step 6: endpoints reached from many IPs\<close>

lemma e_endpoint_hallazgos_paso6: "f \<in> set (hallazgos_paso6 entry) \<Longrightarrow> e_endpoint f = fst entry"
  by (auto simp: hallazgos_paso6_def split: if_splits)

lemma hallazgos_paso6_de:
  "filter (\<lambda>f. e_endpoint f = e)
     (concat (map hallazgos_paso6 (accesosEndpointSensible (paso3 config logs)))) =
   (if e \<in> set (suspicious_endpoints config) \<and> 10 < ips_distintas e logs
    then [\<lparr>e_endpoint = e, total_accesos = length (a_endpoint e logs),
           ips_unicas = ips_distintas e logs\<rparr>]
    else [])"
proof -
  have vacio: "a_endpoint e logs = [] \<Longrightarrow> ips_distintas e logs = 0"
    by (simp add: ips_distintas_def)
  have card: "length (remdups (map ip (a_endpoint e logs))) = ips_distintas e logs"
    by (simp add: ips_distintas_def length_remdups_card_conv)
  have "filter (\<lambda>f. e_endpoint f = e)
     (concat (map hallazgos_paso6 (accesosEndpointSensible (paso3 config logs)))) =
     (case map_of (accesosEndpointSensible (paso3 config logs)) e of
        None \<Rightarrow> []
      | Some d \<Rightarrow> filter (\<lambda>f. e_endpoint f = e) (hallazgos_paso6 (e, d)))"
    by (rule filter_concat_clave[OF distinct_accesosEndpointSensible])
      (rule e_endpoint_hallazgos_paso6)
  then show ?thesis
    unfolding map_of_accesosEndpointSensible
    by (simp add: hallazgos_paso6_def card) (simp add: vacio)
qed

text \<open>
  C5. Step 6 appends exactly one finding for an endpoint when the endpoint is in the
  policy's list and more than 10 distinct IPs reached it, and none otherwise (so none at
  exactly 10). The finding carries the number of distinct IPs in \<^verbatim>\<open>ips_unicas\<close> and
  the number of all accesses in \<^verbatim>\<open>total_accesos\<close>. The same holds of the report that a
  run returns. An endpoint outside the list has no entry in the table that the step visits.
\<close>

theorem endpoint_masivo:
  "filter (\<lambda>f. e_endpoint f = e) (endpoints_bajo_ataque (paso6 (paso3 config logs) rep)) =
     filter (\<lambda>f. e_endpoint f = e) (endpoints_bajo_ataque rep)
     @ (if e \<in> set (suspicious_endpoints config) \<and> 10 < ips_distintas e logs
        then [\<lparr>e_endpoint = e, total_accesos = length (a_endpoint e logs),
               ips_unicas = ips_distintas e logs\<rparr>]
        else [])
   \<and> (\<forall>r. detectarActividadSospechosa logs config = Inr r \<longrightarrow>
          filter (\<lambda>f. e_endpoint f = e) (endpoints_bajo_ataque r) =
            (if e \<in> set (suspicious_endpoints config) \<and> 10 < ips_distintas e logs
             then [\<lparr>e_endpoint = e, total_accesos = length (a_endpoint e logs),
                    ips_unicas = ips_distintas e logs\<rparr>]
             else []))
   \<and> (e \<notin> set (suspicious_endpoints config) \<longrightarrow>
          map_get e (accesosEndpointSensible (paso3 config logs)) = None)"
proof (intro conjI allI impI)
  show "filter (\<lambda>f. e_endpoint f = e) (endpoints_bajo_ataque (paso6 (paso3 config logs) rep)) =
     filter (\<lambda>f. e_endpoint f = e) (endpoints_bajo_ataque rep)
     @ (if e \<in> set (suspicious_endpoints config) \<and> 10 < ips_distintas e logs
        then [\<lparr>e_endpoint = e, total_accesos = length (a_endpoint e logs),
               ips_unicas = ips_distintas e logs\<rparr>]
        else [])"
    by (simp add: paso6_mas mas_endpoints_def hallazgos_paso6_de)
next
  fix r
  assume r: "detectarActividadSospechosa logs config = Inr r"
  show "filter (\<lambda>f. e_endpoint f = e) (endpoints_bajo_ataque r) =
            (if e \<in> set (suspicious_endpoints config) \<and> 10 < ips_distintas e logs
             then [\<lparr>e_endpoint = e, total_accesos = length (a_endpoint e logs),
                    ips_unicas = ips_distintas e logs\<rparr>]
             else [])"
    by (simp add: detectar_campos(3)[OF r] hallazgos_paso6_de)
next
  assume "e \<notin> set (suspicious_endpoints config)"
  then show "map_get e (accesosEndpointSensible (paso3 config logs)) = None"
    by (simp add: map_get_def map_of_accesosEndpointSensible)
qed

lemma ips_distintas_remdups:
  "ips_distintas e logs = length (remdups (map ip (a_endpoint e logs)))"
  by (simp add: ips_distintas_def length_remdups_card_conv)

lemma ips_distintas_logs_masivos: "ips_distintas ''/api/admin'' logs_masivos = 11"
  unfolding ips_distintas_remdups by code_simp

lemma accesos_logs_masivos: "length (a_endpoint ''/api/admin'' logs_masivos) = 12"
  by code_simp

lemma tiempos_logs_masivos: "list_all (\<lambda>lg. tiempo_valido (timestamp lg)) logs_masivos"
  by code_simp

lemma logs_masivos_devuelve: "\<exists>r. detectarActividadSospechosa logs_masivos config_ejemplo = Inr r"
  using tiempos_logs_masivos by (intro detectar_devuelve) (simp add: list_all_iff)

theorem endpoint_masivo_witness:
  "\<exists>r. detectarActividadSospechosa logs_masivos config_ejemplo = Inr r
       \<and> filter (\<lambda>f. e_endpoint f = ''/api/admin'') (endpoints_bajo_ataque r) =
           [\<lparr>e_endpoint = ''/api/admin'', total_accesos = 12, ips_unicas = 11\<rparr>]
       \<and> filter (\<lambda>f. e_endpoint f = ''/api/users'') (endpoints_bajo_ataque r) = []
       \<and> map_get ''/api/users'' (accesosEndpointSensible (paso3 config_ejemplo logs_masivos)) = None"
proof -
  obtain r where r: "detectarActividadSospechosa logs_masivos config_ejemplo = Inr r"
    using logs_masivos_devuelve by blast
  have sosp: "''/api/admin'' \<in> set (suspicious_endpoints config_ejemplo)"
    "''/api/users'' \<notin> set (suspicious_endpoints config_ejemplo)"
    by (simp_all add: config_ejemplo_def)
  note admin = endpoint_masivo[of "''/api/admin''" config_ejemplo logs_masivos informe_inicial]
  note users = endpoint_masivo[of "''/api/users''" config_ejemplo logs_masivos informe_inicial]
  have "filter (\<lambda>f. e_endpoint f = ''/api/admin'') (endpoints_bajo_ataque r) =
           [\<lparr>e_endpoint = ''/api/admin'', total_accesos = 12, ips_unicas = 11\<rparr>]"
    using admin[THEN conjunct2, THEN conjunct1, rule_format, OF r]
    by (simp add: ips_distintas_logs_masivos accesos_logs_masivos sosp)
  moreover have "filter (\<lambda>f. e_endpoint f = ''/api/users'') (endpoints_bajo_ataque r) = []"
    using users[THEN conjunct2, THEN conjunct1, rule_format, OF r] by (simp add: sosp)
  moreover have
    "map_get ''/api/users'' (accesosEndpointSensible (paso3 config_ejemplo logs_masivos)) = None"
    using users[THEN conjunct2, THEN conjunct2] by (simp add: sosp)
  ultimately show ?thesis
    using r by blast
qed

section \<open>Step 4: the loops and the windows of the description\<close>
















lemma ordenados_logs_rafaga:
  "timestamps_ordenados ''10.0.0.1'' logs_rafaga = [0, 50000, 60001, 60002]"
  by code_simp









section \<open>Step 5: failed logins\<close>

lemma f_ip_hallazgos_paso5: "f \<in> set (hallazgos_paso5 config entry) \<Longrightarrow> f_ip f = fst entry"
  by (auto simp: hallazgos_paso5_def split: if_splits)

text \<open>
  What step 5 does: an IP with at least one failed login and more of them than the limit
  gets one finding, whose first and last attempt are the first and the last failed login
  in arrival order.
\<close>

lemma ataques_de:
  assumes "detectarActividadSospechosa logs config = Inr r"
  shows "filter (\<lambda>f. f_ip f = x) (ataques_fuerza_bruta r) =
           (if fallos_de config x logs \<noteq> []
               \<and> int (length (fallos_de config x logs)) > max_failed_logins config
            then [\<lparr>f_ip = x, intentos_fallidos = length (fallos_de config x logs),
                   f_limite_permitido = max_failed_logins config,
                   timestamps_intentos = map timestamp (fallos_de config x logs),
                   primera_tentativa = timestamp (hd (fallos_de config x logs)),
                   ultima_tentativa = timestamp (last (fallos_de config x logs))\<rparr>]
            else [])"
proof -
  have "filter (\<lambda>f. f_ip f = x) (ataques_fuerza_bruta r) =
     (case map_of (fallosLoginPorIP (paso3 config logs)) x of
        None \<Rightarrow> []
      | Some d \<Rightarrow> filter (\<lambda>f. f_ip f = x) (hallazgos_paso5 config (x, d)))"
    unfolding detectar_campos(2)[OF assms]
    by (rule filter_concat_clave[OF distinct_fallosLoginPorIP]) (rule f_ip_hallazgos_paso5)
  then show ?thesis
    unfolding map_of_fallosLoginPorIP fallos_de_def[symmetric]
    by (auto simp: hallazgos_paso5_def hd_map last_map)
qed

text \<open>
  C2 at a batch that is not in temporal order: the IP's two failed logins arrive with the
  timestamps 2000 and then 1000. The finding's \<^verbatim>\<open>primera_tentativa\<close> is the timestamp
  that arrived first, 2000, and \<^verbatim>\<open>ultima_tentativa\<close> the one that arrived last, 1000,
  while the minimum of the recorded timestamps is 1000 and the maximum is 2000.
\<close>

theorem fuerza_bruta_orden_de_llegada:
  "\<exists>r a. detectarActividadSospechosa logs_desordenados config_estricta = Inr r
         \<and> ataques_fuerza_bruta r = [a]
         \<and> timestamps_intentos a = [2000, 1000]
         \<and> primera_tentativa a = 2000 \<and> Min (set (timestamps_intentos a)) = 1000
         \<and> ultima_tentativa a = 1000 \<and> Max (set (timestamps_intentos a)) = 2000"
  by (simp add: run_logs_desordenados)

section \<open>The policy is not validated\<close>






section \<open>Step 8: irregular response times\<close>







lemma filter_concat_propio:
  assumes "distinct (map fst es)"
    and "\<And>e f. e \<in> set es \<Longrightarrow> f \<in> set (out e) \<Longrightarrow> P f \<longleftrightarrow> fst e = x"
  shows "filter P (concat (map out es)) =
           (case map_of es x of None \<Rightarrow> [] | Some d \<Rightarrow> out (x, d))"
  using assms
proof (induction es)
  case Nil
  show ?case by simp
next
  case (Cons e es)
  obtain k d where e: "e = (k, d)" by (cases e)
  have IH: "filter P (concat (map out es)) =
      (case map_of es x of None \<Rightarrow> [] | Some d \<Rightarrow> out (x, d))"
    using Cons by simp
  have todos: "\<And>f. f \<in> set (out (k, d)) \<Longrightarrow> P f \<longleftrightarrow> k = x"
    using Cons.prems(2)[of e] by (simp add: e)
  show ?case
  proof (cases "k = x")
    case True
    then have "map_of es x = None"
      using Cons.prems(1) by (simp add: e map_of_eq_None_iff)
    moreover have "filter P (out (k, d)) = out (k, d)"
      using todos True by (simp add: filter_id_conv)
    ultimately show ?thesis
      using True by (simp add: e IH)
  next
    case False
    then have "filter P (out (k, d)) = []"
      using todos by (simp add: filter_empty_conv)
    then show ?thesis
      using False by (simp add: e IH)
  qed
qed











section \<open>Step 7: the user-agent table\<close>

lemma map_set_nuevo: "map_of m k = None \<Longrightarrow> map_set k v m = m @ [(k, v)]"
  by (induction m) (auto split: if_splits)

lemma map_set_ultimo: "map_of m k = None \<Longrightarrow> map_set k v (m @ [(k, w)]) = m @ [(k, v)]"
  by (induction m) (auto split: if_splits)

lemma map_of_tabla: "map_of (map (\<lambda>b. (b, f b)) ks) a = (if a \<in> set ks then Some (f a) else None)"
  by (induction ks) auto

lemma map_tabla_igual:
  "a \<notin> set ks \<Longrightarrow> map (\<lambda>b. (b, if b = a then v else f b)) ks = map (\<lambda>b. (b, f b)) ks"
  by (induction ks) auto

lemma map_set_tabla:
  "distinct ks \<Longrightarrow> a \<in> set ks \<Longrightarrow>
   map_set a v (map (\<lambda>b. (b, f b)) ks) = map (\<lambda>b. (b, if b = a then v else f b)) ks"
proof (induction ks)
  case Nil
  then show ?case by simp
next
  case (Cons k ks)
  show ?case
  proof (cases "k = a")
    case True
    then have "a \<notin> set ks" using Cons.prems(1) by simp
    then show ?thesis
      using True by (simp add: map_tabla_igual)
  next
    case False
    with Cons show ?thesis by simp
  qed
qed

lemma proto_no_es_corriente: "a \<notin> set object_prototype_names \<Longrightarrow> a \<noteq> ''__proto__''"
  by (auto simp: object_prototype_names_def)

text \<open>Counting a user agent that is no name of \<^verbatim>\<open>Object.prototype\<close>.\<close>

lemma contar_user_agent_nuevo:
  assumes "a \<notin> set object_prototype_names" and "map_of obj a = None"
  shows "contar_user_agent a obj = obj @ [(a, Fin 1)]"
proof -
  have 1: "obj_get a obj = Undefined"
    using assms by (simp add: obj_get_def)
  have 2: "obj_set a (Fin 0) obj = obj @ [(a, Fin 0)]"
    using assms by (simp add: obj_set_def proto_no_es_corriente map_set_nuevo)
  have 3: "obj_get a (obj @ [(a, Fin 0)]) = Numero (Fin 0)"
    using assms(2) by (simp add: obj_get_def map_add_def)
  have 4: "obj_set a (Fin 1) (obj @ [(a, Fin 0)]) = obj @ [(a, Fin 1)]"
    using assms by (simp add: obj_set_def proto_no_es_corriente map_set_ultimo)
  show ?thesis
    by (simp add: contar_user_agent_def Let_def 1 2 3 4)
qed

lemma contar_user_agent_visto:
  assumes "a \<notin> set object_prototype_names" and "map_of obj a = Some (Fin n)" and "n \<noteq> 0"
  shows "contar_user_agent a obj = map_set a (Fin (n + 1)) obj"
proof -
  have 1: "obj_get a obj = Numero (Fin n)"
    using assms by (simp add: obj_get_def)
  show ?thesis
    using assms by (simp add: contar_user_agent_def Let_def 1 obj_set_def proto_no_es_corriente)
qed

lemma primeras_apariciones_snoc:
  "primeras_apariciones (xs @ [a]) =
     (if a \<in> set xs then primeras_apariciones xs else primeras_apariciones xs @ [a])"
  by (simp add: primeras_apariciones_def)

lemma set_primeras_apariciones: "set (primeras_apariciones xs) = set xs"
  by (simp add: primeras_apariciones_def)

lemma distinct_primeras_apariciones: "distinct (primeras_apariciones xs)"
  by (simp add: primeras_apariciones_def)

lemma length_primeras_apariciones: "length (primeras_apariciones xs) = card (set xs)"
  using length_remdups_card_conv[of "rev xs"] by (simp add: primeras_apariciones_def)

lemma count_list_positivo: "a \<in> set xs \<Longrightarrow> 0 < count_list xs a"
  by (induction xs) auto

lemma count_list_cero: "a \<notin> set xs \<Longrightarrow> count_list xs a = 0"
  by (induction xs) auto

lemma tabla_de_agentes_snoc:
  "tabla_de_agentes (xs @ [a]) = contar_user_agent a (tabla_de_agentes xs)"
  by (simp add: tabla_de_agentes_def)

lemma tabla_de_agentes_corrientes:
  assumes "\<And>a. a \<in> set agentes \<Longrightarrow> a \<notin> set object_prototype_names"
  shows "tabla_de_agentes agentes =
           map (\<lambda>a. (a, Fin (real (count_list agentes a)))) (primeras_apariciones agentes)"
  using assms
proof (induction agentes rule: rev_induct)
  case Nil
  show ?case by (simp add: tabla_de_agentes_def primeras_apariciones_def)
next
  case (snoc a xs)
  have IH: "tabla_de_agentes xs =
      map (\<lambda>b. (b, Fin (real (count_list xs b)))) (primeras_apariciones xs)"
    using snoc by simp
  have corriente: "a \<notin> set object_prototype_names"
    using snoc.prems by simp
  show ?case
  proof (cases "a \<in> set xs")
    case False
    then have "map_of (tabla_de_agentes xs) a = None"
      by (simp add: IH map_of_tabla set_primeras_apariciones)
    then have "tabla_de_agentes (xs @ [a]) = tabla_de_agentes xs @ [(a, Fin 1)]"
      by (simp add: tabla_de_agentes_snoc contar_user_agent_nuevo[OF corriente])
    moreover have "map (\<lambda>b. (b, Fin (real (count_list (xs @ [a]) b)))) (primeras_apariciones xs)
        = map (\<lambda>b. (b, Fin (real (count_list xs b)))) (primeras_apariciones xs)"
      using False by (auto simp: set_primeras_apariciones)
    ultimately show ?thesis
      using False by (simp add: IH primeras_apariciones_snoc count_list_cero)
  next
    case True
    then have visto: "map_of (tabla_de_agentes xs) a = Some (Fin (real (count_list xs a)))"
      by (simp add: IH map_of_tabla set_primeras_apariciones)
    have pos: "real (count_list xs a) \<noteq> 0"
      using count_list_positivo[OF True] by simp
    have "tabla_de_agentes (xs @ [a]) =
        map_set a (Fin (real (count_list xs a) + 1)) (tabla_de_agentes xs)"
      by (simp add: tabla_de_agentes_snoc contar_user_agent_visto[OF corriente visto pos])
    also have "\<dots> = map (\<lambda>b. (b, if b = a then Fin (real (count_list xs a) + 1)
                                 else Fin (real (count_list xs b))))
                      (primeras_apariciones xs)"
      unfolding IH
      by (rule map_set_tabla) (simp_all add: distinct_primeras_apariciones
          set_primeras_apariciones True)
    also have "\<dots> = map (\<lambda>b. (b, Fin (real (count_list (xs @ [a]) b)))) (primeras_apariciones xs)"
      by (rule map_cong) auto
    finally show ?thesis
      using True by (simp add: primeras_apariciones_snoc)
  qed
qed

lemma tabla_user_agents_agentes: "tabla_user_agents ls = tabla_de_agentes (map user_agent ls)"
  by (simp add: tabla_user_agents_def tabla_de_agentes_def fold_map comp_def)

text \<open>The order of \<^verbatim>\<open>Object.keys\<close> on a table.\<close>

lemma insort_key_map:
  "insort_key f (h x) (map h xs) = map h (insort_key (\<lambda>y. f (h y)) x xs)"
  by (induction xs) auto

lemma sort_key_map: "sort_key f (map h xs) = map h (sort_key (\<lambda>y. f (h y)) xs)"
  by (induction xs) (simp_all add: insort_key_map)

lemma object_entries_tabla:
  "object_entries (map (\<lambda>a. (a, g a)) ks) = map (\<lambda>a. (a, g a)) (orden_de_claves ks)"
  by (simp add: object_entries_def orden_de_claves_def filter_map comp_def sort_key_map)

lemma object_keys_tabla: "object_keys (map (\<lambda>a. (a, g a)) ks) = orden_de_claves ks"
  by (simp add: object_keys_def object_entries_tabla comp_def)

lemma object_values_tabla: "object_values (map (\<lambda>a. (a, g a)) ks) = map g (orden_de_claves ks)"
  by (simp add: object_values_def object_entries_tabla comp_def)

lemma length_orden_de_claves: "length (orden_de_claves ks) = length ks"
  by (simp add: orden_de_claves_def sum_length_filter_compl)

lemma set_orden_de_claves: "set (orden_de_claves ks) = set ks"
  by (auto simp: orden_de_claves_def)

lemma orden_de_claves_sin_indices:
  assumes "list_all (\<lambda>k. \<not> is_array_index k) ks"
  shows "orden_de_claves ks = ks"
proof -
  have "filter is_array_index ks = []" "filter (\<lambda>k. \<not> is_array_index k) ks = ks"
    using assms by (simp_all add: list_all_iff filter_empty_conv filter_id_conv)
  then show ?thesis
    by (simp add: orden_de_claves_def)
qed

text \<open>The sum, the maximum and its first position, on counts that are numbers.\<close>

lemma foldl_js_add_Fin:
  "foldl js_add (Fin a) (map (\<lambda>k. Fin (real (g k))) ks) = Fin (a + real (sum_list (map g ks)))"
  by (induction ks arbitrary: a) (simp_all add: add.assoc)

lemma foldl_js_max_Fin:
  "foldl js_max (Fin a) (map (\<lambda>k. Fin (real (g k))) ks) = Fin (foldl max a (map (\<lambda>k. real (g k)) ks))"
  by (induction ks arbitrary: a) simp_all

lemma foldl_max_cota: "a \<le> foldl max a xs \<and> (\<forall>x\<in>set xs. x \<le> foldl max a xs)"
  for a :: real
proof (induction xs arbitrary: a)
  case Nil
  show ?case by simp
next
  case (Cons x xs)
  have "max a x \<le> foldl max (max a x) xs" and "\<forall>y\<in>set xs. y \<le> foldl max (max a x) xs"
    using Cons[of "max a x"] by simp_all
  then show ?case by auto
qed

lemma foldl_max_alcanzado: "foldl max a xs = a \<or> foldl max a xs \<in> set xs"
  for a :: real
proof (induction xs arbitrary: a)
  case Nil
  show ?case by simp
next
  case (Cons x xs)
  have "foldl max a (x # xs) = max a x \<or> foldl max a (x # xs) \<in> set xs"
    using Cons[of "max a x"] by simp
  moreover have "max a x = a \<or> max a x = x"
    by (simp add: max_def)
  ultimately show ?case by auto
qed

lemma math_max_tabla:
  assumes "ks \<noteq> []"
  shows "\<exists>m. math_max (map (\<lambda>k. Fin (real (g k))) ks) = Fin (real m)
           \<and> (\<forall>k\<in>set ks. g k \<le> m) \<and> (\<exists>k\<in>set ks. g k = m)"
proof -
  obtain k0 rest where ks: "ks = k0 # rest"
    using assms by (cases ks) auto
  let ?M = "foldl max (real (g k0)) (map (\<lambda>k. real (g k)) rest)"
  have mm: "math_max (map (\<lambda>k. Fin (real (g k))) ks) = Fin ?M"
    by (simp add: math_max_def ks foldl_js_max_Fin)
  have cota: "real (g k0) \<le> ?M" "\<forall>k\<in>set rest. real (g k) \<le> ?M"
    using foldl_max_cota[of "real (g k0)" "map (\<lambda>k. real (g k)) rest"] by auto
  have "?M = real (g k0) \<or> ?M \<in> set (map (\<lambda>k. real (g k)) rest)"
    by (rule foldl_max_alcanzado)
  then obtain k where k: "k \<in> set ks" "?M = real (g k)"
    by (auto simp: ks)
  have "\<forall>k'\<in>set ks. g k' \<le> g k"
    using cota k(2) by (auto simp: ks)
  with mm k show ?thesis
    by auto
qed

lemma elemento_indexOf_tabla:
  "elemento ks (indexOf (map (\<lambda>k. Fin (real (g k))) ks) (Fin (real m))) = find (\<lambda>k. g k = m) ks"
proof (induction ks)
  case Nil
  show ?case by (simp add: elemento_def)
next
  case (Cons k ks)
  show ?case
  proof (cases "g k = m")
    case True
    then show ?thesis by (simp add: elemento_def)
  next
    case False
    have "elemento (k # ks) (case i of None \<Rightarrow> None | Some n \<Rightarrow> Some (Suc n)) = elemento ks i" for i
      by (cases i) (simp_all add: elemento_def)
    with False Cons show ?thesis by simp
  qed
qed

lemma mas_comun_tabla:
  assumes "ks \<noteq> []"
  shows "elemento ks (indexOf (map (\<lambda>k. Fin (real (g k))) ks)
                        (math_max (map (\<lambda>k. Fin (real (g k))) ks)))
         = primero_de_maximo ks g"
proof -
  obtain m where m: "math_max (map (\<lambda>k. Fin (real (g k))) ks) = Fin (real m)"
    and cota: "\<forall>k\<in>set ks. g k \<le> m" and alc: "\<exists>k\<in>set ks. g k = m"
    using math_max_tabla[OF assms, of g] by blast
  have "find (\<lambda>k. g k = m) ks = find (\<lambda>k. \<forall>k'\<in>set ks. g k' \<le> g k) ks"
  proof (rule find_cong)
    fix k
    assume "k \<in> set ks"
    show "(g k = m) = (\<forall>k'\<in>set ks. g k' \<le> g k)"
      using cota alc \<open>k \<in> set ks\<close> by (metis order_antisym)
  qed simp
  then show ?thesis
    by (simp add: m elemento_indexOf_tabla primero_de_maximo_def)
qed

lemma hallazgos_paso7_corrientes:
  assumes "\<And>a. a \<in> set agentes \<Longrightarrow> a \<notin> set object_prototype_names"
  shows "hallazgos_paso7 (x, tabla_de_agentes agentes) =
     (if 5 < card (set agentes)
      then [MultiplesUserAgents x (card (set agentes))
              (primero_de_maximo (orden_de_claves (primeras_apariciones agentes))
                 (count_list agentes))
              (Fin (real (sum_list (map (count_list agentes)
                                      (orden_de_claves (primeras_apariciones agentes))))))]
      else [])"
proof -
  let ?ks = "orden_de_claves (primeras_apariciones agentes)"
  have n: "length ?ks = card (set agentes)"
    by (simp add: length_orden_de_claves length_primeras_apariciones)
  have "?ks \<noteq> []" if "5 < card (set agentes)"
    using that n by auto
  then show ?thesis
    by (simp add: hallazgos_paso7_def tabla_de_agentes_corrientes[OF assms] object_keys_tabla
        object_values_tabla n foldl_js_add_Fin mas_comun_tabla)
qed

lemma multiple_hallazgos_paso7:
  "f \<in> set (hallazgos_paso7 entry) \<Longrightarrow> es_multiple_de x f \<longleftrightarrow> fst entry = x"
  by (auto simp: hallazgos_paso7_def es_multiple_de_def split: if_splits)

lemma multiple_hallazgos_paso8: "f \<in> set (hallazgos_paso8 entry) \<Longrightarrow> \<not> es_multiple_de x f"
  by (auto simp: hallazgos_paso8_def es_multiple_de_def split: if_splits)

lemma hallazgos_paso8_no_multiple:
  "filter (es_multiple_de x) (concat (map hallazgos_paso8 es)) = []"
  by (auto simp: filter_empty_conv multiple_hallazgos_paso8)

lemma hallazgos_paso7_de:
  "filter (es_multiple_de x)
     (concat (map hallazgos_paso7 (userAgentsPorIP (paso3 config logs)))) =
   (if de_ip x logs = [] then []
    else hallazgos_paso7 (x, tabla_de_agentes (agentes_de x logs)))"
proof -
  have "filter (es_multiple_de x)
     (concat (map hallazgos_paso7 (userAgentsPorIP (paso3 config logs)))) =
     (case map_of (userAgentsPorIP (paso3 config logs)) x of
        None \<Rightarrow> [] | Some d \<Rightarrow> hallazgos_paso7 (x, d))"
    by (rule filter_concat_propio[OF distinct_userAgentsPorIP]) (rule multiple_hallazgos_paso7)
  then show ?thesis
    unfolding map_of_userAgentsPorIP
    by (simp add: tabla_user_agents_agentes agentes_de_def)
qed

lemma hallazgos_paso7_de_corrientes:
  assumes "\<And>a. a \<in> set (agentes_de x logs) \<Longrightarrow> a \<notin> set object_prototype_names"
  shows "filter (es_multiple_de x)
     (concat (map hallazgos_paso7 (userAgentsPorIP (paso3 config logs)))) =
     (if 5 < card (set (agentes_de x logs))
      then [MultiplesUserAgents x (card (set (agentes_de x logs)))
              (primero_de_maximo (orden_de_claves (primeras_apariciones (agentes_de x logs)))
                 (count_list (agentes_de x logs)))
              (Fin (real (sum_list (map (count_list (agentes_de x logs))
                       (orden_de_claves (primeras_apariciones (agentes_de x logs)))))))]
      else [])"
proof (cases "de_ip x logs = []")
  case True
  then show ?thesis
    by (simp add: hallazgos_paso7_de agentes_de_def)
next
  case False
  then show ?thesis
    by (simp add: hallazgos_paso7_de hallazgos_paso7_corrientes[OF assms])
qed

text \<open>
  C6, as stated, fails in its tie-break: \<^verbatim>\<open>Object.keys\<close> lists a key that is an array
  index before the keys that were inserted before it. The IP below uses six user agents
  once each, \<open>''curl''\<close> first and \<open>''1''\<close> second; the first agent of maximal count in
  insertion order is \<open>''curl''\<close>, and the run reports \<open>''1''\<close>.
\<close>

theorem indice_antes_que_insercion:
  "detectarActividadSospechosa logs_agentes config_ejemplo =
     Inr \<lparr>ips_sospechosas = [], ataques_fuerza_bruta = [], endpoints_bajo_ataque = [],
          anomalias_detectadas = [MultiplesUserAgents ''10.0.0.7'' 6 (Some ''1'') (Fin 6)],
          total_eventos_sospechosos = 1\<rparr>
   \<and> agentes_de ''10.0.0.7'' logs_agentes = [''curl'', ''1'', ''wget'', ''python'', ''java'', ''go'']
   \<and> primero_de_maximo (primeras_apariciones (agentes_de ''10.0.0.7'' logs_agentes))
        (count_list (agentes_de ''10.0.0.7'' logs_agentes)) = Some ''curl''"
proof (intro conjI)
  show "detectarActividadSospechosa logs_agentes config_ejemplo =
     Inr \<lparr>ips_sospechosas = [], ataques_fuerza_bruta = [], endpoints_bajo_ataque = [],
          anomalias_detectadas = [MultiplesUserAgents ''10.0.0.7'' 6 (Some ''1'') (Fin 6)],
          total_eventos_sospechosos = 1\<rparr>"
    by (simp add: logs_agentes_def con_agente_def config_ejemplo_def detector_defs)
  show "agentes_de ''10.0.0.7'' logs_agentes = [''curl'', ''1'', ''wget'', ''python'', ''java'', ''go'']"
    by code_simp
  show "primero_de_maximo (primeras_apariciones (agentes_de ''10.0.0.7'' logs_agentes))
        (count_list (agentes_de ''10.0.0.7'' logs_agentes)) = Some ''curl''"
    by code_simp
qed

text \<open>
  The hypothesis of the amended statement leaves out the user agents that name a property
  of \<^verbatim>\<open>Object.prototype\<close>. For such a name the first read of the table finds the
  inherited function, the count starts from NaN, and with it the total and the most
  common agent are lost.
\<close>

lemma agente_heredado:
  "detectarActividadSospechosa
     (map (con_agente ''10.0.0.7'') [''curl'', ''toString'', ''wget'', ''python'', ''java'', ''go''])
     config_ejemplo =
     Inr \<lparr>ips_sospechosas = [], ataques_fuerza_bruta = [], endpoints_bajo_ataque = [],
          anomalias_detectadas = [MultiplesUserAgents ''10.0.0.7'' 6 None NaN],
          total_eventos_sospechosos = 1\<rparr>"
  by (simp add: con_agente_def config_ejemplo_def detector_defs)

text \<open>
  C6, amended. For an IP none of whose user agents names a property of
  \<^verbatim>\<open>Object.prototype\<close>, step 7 appends exactly one finding when the IP used more than 5
  distinct user agents and none otherwise (so none at exactly 5). The finding carries the
  number of distinct user agents, the sum of the agents' counts, and as most common agent
  the first agent of maximal count in the order of \<^verbatim>\<open>Object.keys\<close>: the agents that are
  array indices in ascending numeric order, then the others in the order of their first
  appearance. When no agent is an array index, that is the order of first appearance. A run
  that returns a report returns the finding.
\<close>

theorem multiples_user_agents:
  assumes "\<forall>a\<in>set (agentes_de x logs). a \<notin> set object_prototype_names"
  shows
  "filter (es_multiple_de x) (anomalias_detectadas (paso7 (paso3 config logs) rep)) =
     filter (es_multiple_de x) (anomalias_detectadas rep)
     @ (if 5 < card (set (agentes_de x logs))
        then [MultiplesUserAgents x (card (set (agentes_de x logs)))
                (primero_de_maximo (orden_de_claves (primeras_apariciones (agentes_de x logs)))
                   (count_list (agentes_de x logs)))
                (Fin (real (sum_list (map (count_list (agentes_de x logs))
                         (orden_de_claves (primeras_apariciones (agentes_de x logs)))))))]
        else [])
   \<and> (\<forall>r. detectarActividadSospechosa logs config = Inr r \<longrightarrow>
          filter (es_multiple_de x) (anomalias_detectadas r) =
            (if 5 < card (set (agentes_de x logs))
             then [MultiplesUserAgents x (card (set (agentes_de x logs)))
                     (primero_de_maximo
                        (orden_de_claves (primeras_apariciones (agentes_de x logs)))
                        (count_list (agentes_de x logs)))
                     (Fin (real (sum_list (map (count_list (agentes_de x logs))
                              (orden_de_claves (primeras_apariciones (agentes_de x logs)))))))]
             else []))
   \<and> (list_all (\<lambda>a. \<not> is_array_index a) (agentes_de x logs) \<longrightarrow>
        orden_de_claves (primeras_apariciones (agentes_de x logs)) =
          primeras_apariciones (agentes_de x logs))"
proof (intro conjI allI impI)
  note h = hallazgos_paso7_de_corrientes[of x logs config, OF assms[rule_format]]
  show "filter (es_multiple_de x) (anomalias_detectadas (paso7 (paso3 config logs) rep)) =
     filter (es_multiple_de x) (anomalias_detectadas rep)
     @ (if 5 < card (set (agentes_de x logs))
        then [MultiplesUserAgents x (card (set (agentes_de x logs)))
                (primero_de_maximo (orden_de_claves (primeras_apariciones (agentes_de x logs)))
                   (count_list (agentes_de x logs)))
                (Fin (real (sum_list (map (count_list (agentes_de x logs))
                         (orden_de_claves (primeras_apariciones (agentes_de x logs)))))))]
        else [])"
    using h by (simp add: paso7_mas mas_anomalias_def)
  fix r
  assume r: "detectarActividadSospechosa logs config = Inr r"
  show "filter (es_multiple_de x) (anomalias_detectadas r) =
            (if 5 < card (set (agentes_de x logs))
             then [MultiplesUserAgents x (card (set (agentes_de x logs)))
                     (primero_de_maximo
                        (orden_de_claves (primeras_apariciones (agentes_de x logs)))
                        (count_list (agentes_de x logs)))
                     (Fin (real (sum_list (map (count_list (agentes_de x logs))
                              (orden_de_claves (primeras_apariciones (agentes_de x logs)))))))]
             else [])"
    using h by (simp add: detectar_campos(4)[OF r] hallazgos_paso8_no_multiple)
next
  assume "list_all (\<lambda>a. \<not> is_array_index a) (agentes_de x logs)"
  then have "list_all (\<lambda>a. \<not> is_array_index a) (primeras_apariciones (agentes_de x logs))"
    by (simp add: list_all_iff set_primeras_apariciones)
  then show "orden_de_claves (primeras_apariciones (agentes_de x logs)) =
          primeras_apariciones (agentes_de x logs)"
    by (rule orden_de_claves_sin_indices)
qed

lemma corrientes_siete_agentes:
  "list_all (\<lambda>a. a \<notin> set object_prototype_names) (agentes_de ''10.0.0.7'' logs_siete_agentes)"
  "list_all (\<lambda>a. a \<notin> set object_prototype_names) (agentes_de ''10.0.0.8'' logs_siete_agentes)"
  by code_simp+

lemma distintos_siete_agentes:
  "card (set (agentes_de ''10.0.0.7'' logs_siete_agentes)) = 7"
  "card (set (agentes_de ''10.0.0.8'' logs_siete_agentes)) = 5"
  by code_simp+

lemma mas_comun_siete_agentes:
  "primero_de_maximo
     (orden_de_claves (primeras_apariciones (agentes_de ''10.0.0.7'' logs_siete_agentes)))
     (count_list (agentes_de ''10.0.0.7'' logs_siete_agentes)) = Some ''curl''"
  by code_simp

lemma total_siete_agentes:
  "sum_list (map (count_list (agentes_de ''10.0.0.7'' logs_siete_agentes))
     (orden_de_claves (primeras_apariciones (agentes_de ''10.0.0.7'' logs_siete_agentes)))) = 9"
  by code_simp

lemma logs_siete_agentes_devuelve:
  "\<exists>r. detectarActividadSospechosa logs_siete_agentes config = Inr r"
  by (rule detectar_devuelve)
    (auto simp: logs_siete_agentes_def con_agente_def tiempo_valido_def)

theorem multiples_user_agents_witness:
  "\<exists>r. detectarActividadSospechosa logs_siete_agentes config_ejemplo = Inr r
       \<and> filter (es_multiple_de ''10.0.0.7'') (anomalias_detectadas r) =
           [MultiplesUserAgents ''10.0.0.7'' 7 (Some ''curl'') (Fin 9)]
       \<and> card (set (agentes_de ''10.0.0.8'' logs_siete_agentes)) = 5
       \<and> filter (es_multiple_de ''10.0.0.8'') (anomalias_detectadas r) = []"
proof -
  obtain r where r: "detectarActividadSospechosa logs_siete_agentes config_ejemplo = Inr r"
    using logs_siete_agentes_devuelve by blast
  have c7: "\<forall>a\<in>set (agentes_de ''10.0.0.7'' logs_siete_agentes). a \<notin> set object_prototype_names"
    and c8: "\<forall>a\<in>set (agentes_de ''10.0.0.8'' logs_siete_agentes). a \<notin> set object_prototype_names"
    using corrientes_siete_agentes by (simp_all only: list_all_iff)
  note t7 = multiples_user_agents[OF c7, of config_ejemplo informe_inicial]
  note t8 = multiples_user_agents[OF c8, of config_ejemplo informe_inicial]
  have "filter (es_multiple_de ''10.0.0.7'') (anomalias_detectadas r) =
           [MultiplesUserAgents ''10.0.0.7'' 7 (Some ''curl'') (Fin 9)]"
    using t7[THEN conjunct2, THEN conjunct1, rule_format, OF r]
    by (simp add: distintos_siete_agentes mas_comun_siete_agentes total_siete_agentes)
  moreover have "filter (es_multiple_de ''10.0.0.8'') (anomalias_detectadas r) = []"
    using t8[THEN conjunct2, THEN conjunct1, rule_format, OF r]
    by (simp add: distintos_siete_agentes)
  ultimately show ?thesis
    using r distintos_siete_agentes(2) by blast
qed

section \<open>The linked list of the cache\<close>

lemma cadena_Cons:
  "cadena h (a # L) = (case L of [] \<Rightarrow> True
     | b # L' \<Rightarrow> n_next (h ! a) = Some b \<and> n_prev (h ! b) = Some a \<and> cadena h L)"
  by (cases L) simp_all

lemma cadena_append:
  "cadena h (P @ a # S) \<longleftrightarrow> cadena h (P @ [a]) \<and> cadena h (a # S)"
proof (induction P)
  case Nil
  show ?case by simp
next
  case (Cons p P)
  show ?case
  proof (cases P)
    case Nil
    then show ?thesis by (cases S) auto
  next
    case (Cons q Q)
    then show ?thesis using Cons.IH by auto
  qed
qed

lemma cadena_snoc:
  "P \<noteq> [] \<Longrightarrow>
   cadena h (P @ [a]) \<longleftrightarrow>
     cadena h P \<and> n_next (h ! last P) = Some a \<and> n_prev (h ! a) = Some (last P)"
proof (induction P)
  case Nil
  then show ?case by simp
next
  case (Cons p P)
  show ?case
  proof (cases P)
    case Nil
    then show ?thesis by simp
  next
    case (Cons q Q)
    then show ?thesis using Cons.IH by auto
  qed
qed

text \<open>A chain reads the \<^verbatim>\<open>next\<close> of all its nodes but the last and the \<^verbatim>\<open>prev\<close> of all
  but the first.\<close>

lemma cadena_cong:
  assumes "\<And>b. b \<in> set (butlast L) \<Longrightarrow> n_next (h' ! b) = n_next (h ! b)"
    and "\<And>b. b \<in> set (tl L) \<Longrightarrow> n_prev (h' ! b) = n_prev (h ! b)"
  shows "cadena h' L = cadena h L"
  using assms
proof (induction h L rule: cadena.induct)
  case (1 h a b L)
  have "cadena h' (b # L) = cadena h (b # L)"
    by (rule "1.IH") (auto intro: "1.prems")
  moreover have "n_next (h' ! a) = n_next (h ! a)" "n_prev (h' ! b) = n_prev (h ! b)"
    using "1.prems" by simp_all
  ultimately show ?case by simp
qed simp_all

text \<open>\<^verbatim>\<open>_removeNode\<close> takes a node out of a chain and touches no key and no value.\<close>

lemma removeNode_cadena:
  assumes c: "cadena (heap s) (P @ a # S)"
    and d: "distinct (P @ a # S)"
    and ne: "P \<noteq> []" "S \<noteq> []"
    and r: "\<And>b. b \<in> set (P @ a # S) \<Longrightarrow> b < length (heap s)"
  shows "\<exists>h'. removeNode a s = Inr (s\<lparr>heap := h'\<rparr>) \<and> cadena h' (P @ S)
           \<and> length h' = length (heap s)
           \<and> (\<forall>b. n_key (h' ! b) = n_key (heap s ! b) \<and> n_value (h' ! b) = n_value (heap s ! b))"
proof -
  let ?h = "heap s"
  obtain n R where S: "S = n # R"
    using ne(2) by (cases S) auto
  let ?p = "last P"
  have "cadena ?h (P @ [a])"
    using c cadena_append[of ?h P a S] by simp
  then have cP: "cadena ?h P" and pa: "n_next (?h ! ?p) = Some a" "n_prev (?h ! a) = Some ?p"
    using ne(1) by (simp_all add: cadena_snoc)
  have "cadena ?h (a # n # R)"
    using c cadena_append[of ?h P a S] by (simp add: S)
  then have an: "n_next (?h ! a) = Some n" "n_prev (?h ! n) = Some a" and cS: "cadena ?h (n # R)"
    by simp_all
  have pP: "?p \<in> set P"
    using ne(1) by simp
  have p_lt: "?p < length ?h" and n_lt: "n < length ?h"
    using r pP by (auto simp: S)
  have pn: "?p \<noteq> n" "?p \<noteq> a" "n \<noteq> a"
    using d pP by (auto simp: S)
  define h1 where "h1 = ?h[?p := (?h ! ?p)\<lparr>n_next := Some n\<rparr>]"
  define h2 where "h2 = h1[n := (h1 ! n)\<lparr>n_prev := Some ?p\<rparr>]"
  have run: "removeNode a s = Inr (s\<lparr>heap := h2\<rparr>)"
    by (simp add: removeNode_def Let_def pa an h1_def h2_def)
  have nx: "n_next (h2 ! b) = (if b = ?p then Some n else n_next (?h ! b))" for b
    using p_lt n_lt by (simp add: nth_list_update h1_def h2_def)
  have pv: "n_prev (h2 ! b) = (if b = n then Some ?p else n_prev (?h ! b))" for b
    using p_lt n_lt pn by (simp add: nth_list_update h1_def h2_def)
  have kv: "n_key (h2 ! b) = n_key (?h ! b) \<and> n_value (h2 ! b) = n_value (?h ! b)" for b
    using p_lt n_lt by (simp add: nth_list_update h1_def h2_def)
  have len: "length h2 = length ?h"
    by (simp add: h1_def h2_def)
  have "cadena h2 P = cadena ?h P"
  proof (rule cadena_cong)
    fix b assume "b \<in> set (butlast P)"
    then have "b \<noteq> ?p"
      using d ne(1) by (metis append_butlast_last_id distinct_append disjoint_iff
          distinct.simps(2) list.set_intros(1))
    then show "n_next (h2 ! b) = n_next (?h ! b)" by (simp add: nx)
  next
    fix b assume "b \<in> set (tl P)"
    then have "b \<in> set P" by (metis list.set_sel(2) ne(1))
    then have "b \<noteq> n" using d by (auto simp: S)
    then show "n_prev (h2 ! b) = n_prev (?h ! b)" by (simp add: pv)
  qed
  moreover have "cadena h2 (n # R) = cadena ?h (n # R)"
  proof (rule cadena_cong)
    fix b assume "b \<in> set (butlast (n # R))"
    then have "b \<in> set (n # R)" by (rule in_set_butlastD)
    then have "b \<noteq> ?p" using d pP by (auto simp: S)
    then show "n_next (h2 ! b) = n_next (?h ! b)" by (simp add: nx)
  next
    fix b assume "b \<in> set (tl (n # R))"
    then have "b \<noteq> n" using d by (auto simp: S)
    then show "n_prev (h2 ! b) = n_prev (?h ! b)" by (simp add: pv)
  qed
  ultimately have "cadena h2 (P @ n # R)"
    using cP cS ne(1) by (simp add: cadena_append[of h2 P n R] cadena_snoc nx pv)
  then show ?thesis
    using run kv len by (intro exI[of _ h2]) (simp add: S)
qed

text \<open>\<^verbatim>\<open>_addToEnd\<close> puts a node that is outside the chain before the tail.\<close>

lemma addToEnd_cadena:
  assumes c: "cadena (heap s) (P @ [tail s])"
    and d: "distinct (P @ [tail s])"
    and ne: "P \<noteq> []"
    and a: "a \<notin> set (P @ [tail s])" "a < length (heap s)"
    and r: "\<And>b. b \<in> set (P @ [tail s]) \<Longrightarrow> b < length (heap s)"
  shows "\<exists>h'. addToEnd a s = Inr (s\<lparr>heap := h'\<rparr>) \<and> cadena h' (P @ [a, tail s])
           \<and> length h' = length (heap s)
           \<and> (\<forall>b. n_key (h' ! b) = n_key (heap s ! b) \<and> n_value (h' ! b) = n_value (heap s ! b))"
proof -
  let ?h = "heap s" and ?t = "tail s" and ?l = "last P"
  have cP: "cadena ?h P" and lt: "n_next (?h ! ?l) = Some ?t" "n_prev (?h ! ?t) = Some ?l"
    using c ne by (simp_all add: cadena_snoc)
  have lP: "?l \<in> set P" using ne by simp
  have lens: "?l < length ?h" "?t < length ?h"
    using r lP by auto
  have neq: "a \<noteq> ?l" "a \<noteq> ?t" "?l \<noteq> ?t"
    using a(1) d lP by auto
  define h1 where "h1 = ?h[a := (?h ! a)\<lparr>n_prev := n_prev (?h ! ?t)\<rparr>]"
  define h2 where "h2 = h1[a := (h1 ! a)\<lparr>n_next := Some ?t\<rparr>]"
  define h3 where "h3 = h2[?l := (h2 ! ?l)\<lparr>n_next := Some a\<rparr>]"
  define h4 where "h4 = h3[?t := (h3 ! ?t)\<lparr>n_prev := Some a\<rparr>]"
  have t2: "n_prev (h2 ! ?t) = Some ?l"
    using neq lens a(2) lt by (simp add: h1_def h2_def)
  have run: "addToEnd a s = Inr (s\<lparr>heap := h4\<rparr>)"
    unfolding addToEnd_def Let_def h1_def[symmetric] h2_def[symmetric]
    by (simp add: t2 h3_def h4_def)
  have nx: "n_next (h4 ! b) =
      (if b = ?l then Some a else if b = a then Some ?t else n_next (?h ! b))" for b
    using lens a(2) neq by (simp add: nth_list_update h1_def h2_def h3_def h4_def)
  have pv: "n_prev (h4 ! b) =
      (if b = ?t then Some a else if b = a then Some ?l else n_prev (?h ! b))" for b
    using lens a(2) neq by (simp add: nth_list_update lt h1_def h2_def h3_def h4_def)
  have kv: "n_key (h4 ! b) = n_key (?h ! b) \<and> n_value (h4 ! b) = n_value (?h ! b)" for b
    using lens a(2) by (simp add: nth_list_update h1_def h2_def h3_def h4_def)
  have len: "length h4 = length ?h"
    by (simp add: h1_def h2_def h3_def h4_def)
  have "cadena h4 P = cadena ?h P"
  proof (rule cadena_cong)
    fix b assume "b \<in> set (butlast P)"
    then have "b \<noteq> ?l"
      using d ne by (metis append_butlast_last_id distinct_append disjoint_iff
          distinct.simps(2) list.set_intros(1))
    moreover have "b \<noteq> a"
      using \<open>b \<in> set (butlast P)\<close> a(1) by (auto dest: in_set_butlastD)
    ultimately show "n_next (h4 ! b) = n_next (?h ! b)" by (simp add: nx)
  next
    fix b assume "b \<in> set (tl P)"
    then have "b \<in> set P" by (metis list.set_sel(2) ne)
    then have "b \<noteq> ?t" "b \<noteq> a" using d a(1) by auto
    then show "n_prev (h4 ! b) = n_prev (?h ! b)" by (simp add: pv)
  qed
  then have "cadena h4 (P @ [a, ?t])"
    using cP ne neq by (simp add: cadena_append[of h4 P a "[?t]"] cadena_snoc nx pv)
  then show ?thesis
    using run kv len by (intro exI[of _ h4]) simp
qed

section \<open>The well-formed cache\<close>

lemma bien_formado_claves:
  assumes "bien_formado s as"
  shows "inj_on (\<lambda>a. n_key (heap s ! a)) (set as)"
proof (rule inj_onI)
  fix b c
  assume b: "b \<in> set as" and c: "c \<in> set as" and e: "n_key (heap s ! b) = n_key (heap s ! c)"
  have im: "set (cache s) = (\<lambda>a. (n_key (heap s ! a), a)) ` set as"
    using assms by (simp add: bien_formado_def)
  have "(n_key (heap s ! b), b) \<in> set (cache s)"
    unfolding im using b by (rule imageI)
  moreover have "(n_key (heap s ! c), c) \<in> set (cache s)"
    unfolding im using c by (rule imageI)
  then have "(n_key (heap s ! b), c) \<in> set (cache s)"
    by (simp add: e)
  moreover have "distinct (map fst (cache s))"
    using assms by (simp add: bien_formado_def)
  ultimately show "b = c"
    by (rule eq_key_imp_eq_value[rotated])
qed

lemma bien_formado_map_of:
  assumes "bien_formado s as"
  shows "map_of (cache s) k = Some a \<longleftrightarrow> a \<in> set as \<and> n_key (heap s ! a) = k"
proof -
  have d: "distinct (map fst (cache s))"
    and c: "set (cache s) = (\<lambda>a. (n_key (heap s ! a), a)) ` set as"
    using assms by (simp_all add: bien_formado_def)
  have "map_of (cache s) k = Some a \<longleftrightarrow> (k, a) \<in> set (cache s)"
    using d by simp
  then show ?thesis
    by (auto simp: c)
qed

lemma bien_formado_map_has:
  assumes "bien_formado s as"
  shows "map_has k (cache s) \<longleftrightarrow> k \<in> (\<lambda>a. n_key (heap s ! a)) ` set as"
proof -
  have "map_has k (cache s) \<longleftrightarrow> (\<exists>a. map_of (cache s) k = Some a)"
    by (simp add: map_has_def)
  then show ?thesis
    by (auto simp: bien_formado_map_of[OF assms])
qed

lemma bien_formado_length:
  assumes "bien_formado s as"
  shows "length (cache s) = length as"
proof -
  have d: "distinct (map fst (cache s))" "distinct as"
    and c: "set (cache s) = (\<lambda>a. (n_key (heap s ! a), a)) ` set as"
    using assms by (simp_all add: bien_formado_def)
  have "distinct (cache s)"
    using d(1) by (simp add: distinct_map)
  then have "length (cache s) = card (set (cache s))"
    by (simp add: distinct_card)
  also have "\<dots> = card (set as)"
    unfolding c by (rule card_image) (auto intro: inj_onI)
  also have "\<dots> = length as"
    using d(2) by (simp add: distinct_card)
  finally show ?thesis .
qed

lemma contenido_claves: "map fst (contenido s as) = map (\<lambda>a. n_key (heap s ! a)) as"
  by (simp add: contenido_def comp_def)

lemma contenido_cong:
  assumes "\<And>b. b \<in> set as \<Longrightarrow>
             n_key (heap s' ! b) = n_key (heap s ! b) \<and> n_value (heap s' ! b) = n_value (heap s ! b)"
  shows "contenido s' as = contenido s as"
  using assms by (simp add: contenido_def)

lemma contenido_append: "contenido s (as @ bs) = contenido s as @ contenido s bs"
  by (simp add: contenido_def)

lemma bien_formado_distinct_claves:
  assumes "bien_formado s as"
  shows "distinct (map fst (contenido s as))"
proof -
  have "distinct as" using assms by (simp add: bien_formado_def)
  then show ?thesis
    unfolding contenido_claves
    by (simp add: distinct_map bien_formado_claves[OF assms])
qed

lemma map_of_contenido:
  assumes "bien_formado s as" and "a \<in> set as"
  shows "map_of (contenido s as) (n_key (heap s ! a)) = Some (n_value (heap s ! a))"
proof -
  have "(n_key (heap s ! a), n_value (heap s ! a)) \<in> set (contenido s as)"
    using assms(2) by (auto simp: contenido_def)
  then show ?thesis
    using bien_formado_distinct_claves[OF assms(1)] by simp
qed

lemma sin_clave_contenido:
  assumes "bien_formado s (xs @ a # ys)"
  shows "sin_clave (n_key (heap s ! a)) (contenido s (xs @ a # ys)) = contenido s (xs @ ys)"
proof -
  have inj: "inj_on (\<lambda>a. n_key (heap s ! a)) (set (xs @ a # ys))"
    by (rule bien_formado_claves[OF assms])
  have d: "distinct (xs @ a # ys)"
    using assms by (simp add: bien_formado_def)
  have "n_key (heap s ! b) \<noteq> n_key (heap s ! a)" if "b \<in> set (xs @ ys)" for b
  proof
    assume "n_key (heap s ! b) = n_key (heap s ! a)"
    moreover have "b \<in> set (xs @ a # ys)" "a \<in> set (xs @ a # ys)"
      using that by auto
    ultimately have "b = a"
      using inj by (meson inj_onD)
    then show False
      using d that by auto
  qed
  then have "filter (\<lambda>p. fst p \<noteq> n_key (heap s ! a)) (contenido s xs) = contenido s xs"
    and "filter (\<lambda>p. fst p \<noteq> n_key (heap s ! a)) (contenido s ys) = contenido s ys"
    by (auto simp: contenido_def filter_id_conv)
  then show ?thesis
    by (simp add: sin_clave_def contenido_append) (simp add: contenido_def)
qed

text \<open>\<^verbatim>\<open>_moveToEnd\<close> on a node of the list.\<close>

lemma moveToEnd_bien_formado:
  assumes "bien_formado s (xs @ a # ys)"
  shows "\<exists>h'. moveToEnd a s = Inr (s\<lparr>heap := h'\<rparr>)
           \<and> bien_formado (s\<lparr>heap := h'\<rparr>) (xs @ ys @ [a])
           \<and> (\<forall>b. n_key (h' ! b) = n_key (heap s ! b) \<and> n_value (h' ! b) = n_value (heap s ! b))"
proof -
  let ?as = "xs @ a # ys"
  have hd_tl: "head s = 0" "tail s = 1" and len: "2 \<le> length (heap s)"
    and d: "distinct ?as" and r: "\<forall>b\<in>set ?as. 2 \<le> b \<and> b < length (heap s)"
    and c: "cadena (heap s) (0 # ?as @ [1])"
    using assms by (simp_all add: bien_formado_def)
  have "0 \<notin> set ?as" "1 \<notin> set ?as"
    using r by fastforce+
  then have d1: "distinct ((0 # xs) @ a # (ys @ [1]))"
    using d by auto
  have "\<exists>h1. removeNode a s = Inr (s\<lparr>heap := h1\<rparr>) \<and> cadena h1 ((0 # xs) @ (ys @ [1]))
           \<and> length h1 = length (heap s)
           \<and> (\<forall>b. n_key (h1 ! b) = n_key (heap s ! b) \<and> n_value (h1 ! b) = n_value (heap s ! b))"
    using c d1 r len by (intro removeNode_cadena) auto
  then obtain h1 where rm: "removeNode a s = Inr (s\<lparr>heap := h1\<rparr>)"
    and c1: "cadena h1 ((0 # xs @ ys) @ [1])" and l1: "length h1 = length (heap s)"
    and k1: "\<And>b. n_key (h1 ! b) = n_key (heap s ! b) \<and> n_value (h1 ! b) = n_value (heap s ! b)"
    by auto
  let ?s1 = "s\<lparr>heap := h1\<rparr>"
  have "\<exists>h2. addToEnd a ?s1 = Inr (?s1\<lparr>heap := h2\<rparr>)
           \<and> cadena h2 ((0 # xs @ ys) @ [a, tail ?s1])
           \<and> length h2 = length (heap ?s1)
           \<and> (\<forall>b. n_key (h2 ! b) = n_key (heap ?s1 ! b)
                  \<and> n_value (h2 ! b) = n_value (heap ?s1 ! b))"
    using c1 d1 r len l1 hd_tl by (intro addToEnd_cadena) auto
  then obtain h2 where ad: "addToEnd a ?s1 = Inr (s\<lparr>heap := h2\<rparr>)"
    and c2: "cadena h2 (0 # (xs @ ys @ [a]) @ [1])" and l2: "length h2 = length (heap s)"
    and k2: "\<And>b. n_key (h2 ! b) = n_key (heap s ! b) \<and> n_value (h2 ! b) = n_value (heap s ! b)"
    using hd_tl l1 k1 by auto
  have "bien_formado (s\<lparr>heap := h2\<rparr>) (xs @ ys @ [a])"
    using assms c2 l2 k2 by (auto simp: bien_formado_def)
  then show ?thesis
    using rm ad k2 by (intro exI[of _ h2]) (simp add: moveToEnd_def)
qed

section \<open>The calls on a well-formed cache\<close>

lemma get_falla:
  assumes "bien_formado s as" and "\<not> map_has k (cache s)"
  shows "get k s = Inr (Num (- 1), s)" and "map_of (contenido s as) k = None"
proof -
  show "get k s = Inr (Num (- 1), s)"
    using assms(2) by (simp add: get_def)
  have "k \<notin> (\<lambda>a. n_key (heap s ! a)) ` set as"
    using assms by (simp add: bien_formado_map_has)
  moreover have "fst ` set (contenido s as) = (\<lambda>a. n_key (heap s ! a)) ` set as"
    by (simp add: contenido_def image_image)
  ultimately show "map_of (contenido s as) k = None"
    by (simp add: map_of_eq_None_iff)
qed

lemma get_acierta:
  assumes b: "bien_formado s as" and h: "map_has k (cache s)"
  shows "\<exists>a xs ys h'. as = xs @ a # ys \<and> n_key (heap s ! a) = k
           \<and> get k s = Inr (n_value (heap s ! a), s\<lparr>heap := h'\<rparr>)
           \<and> bien_formado (s\<lparr>heap := h'\<rparr>) (xs @ ys @ [a])
           \<and> contenido (s\<lparr>heap := h'\<rparr>) (xs @ ys @ [a]) =
               sin_clave k (contenido s as) @ [(k, n_value (heap s ! a))]
           \<and> map_of (contenido s as) k = Some (n_value (heap s ! a))"
proof -
  obtain a where a: "map_of (cache s) k = Some a"
    using h by (auto simp: map_has_def)
  then have aa: "a \<in> set as" and ka: "n_key (heap s ! a) = k"
    by (simp_all add: bien_formado_map_of[OF b])
  obtain xs ys where as: "as = xs @ a # ys"
    using aa by (auto simp: in_set_conv_decomp)
  obtain h' where mv: "moveToEnd a s = Inr (s\<lparr>heap := h'\<rparr>)"
    and b': "bien_formado (s\<lparr>heap := h'\<rparr>) (xs @ ys @ [a])"
    and kv: "\<And>c. n_key (h' ! c) = n_key (heap s ! c) \<and> n_value (h' ! c) = n_value (heap s ! c)"
    using moveToEnd_bien_formado[of s xs a ys] b by (auto simp: as)
  have g: "get k s = Inr (n_value (heap s ! a), s\<lparr>heap := h'\<rparr>)"
    using h a mv kv by (simp add: get_def map_get_def)
  have "contenido (s\<lparr>heap := h'\<rparr>) (xs @ ys @ [a]) = contenido s (xs @ ys @ [a])"
    by (rule contenido_cong) (simp add: kv)
  also have "\<dots> = contenido s (xs @ ys) @ [(k, n_value (heap s ! a))]"
    by (simp add: contenido_def ka)
  also have "contenido s (xs @ ys) = sin_clave k (contenido s as)"
    using sin_clave_contenido[of s xs a ys] b by (simp add: as ka)
  finally have c: "contenido (s\<lparr>heap := h'\<rparr>) (xs @ ys @ [a]) =
               sin_clave k (contenido s as) @ [(k, n_value (heap s ! a))]" .
  have m: "map_of (contenido s as) k = Some (n_value (heap s ! a))"
    using map_of_contenido[OF b aa] by (simp add: ka)
  show ?thesis
    using as ka g b' c m by blast
qed

lemma get_representa:
  assumes "representa s xs"
  shows "\<exists>s'. get k s = Inr (fst (lista_get k xs), s') \<and> representa s' (snd (lista_get k xs))
           \<and> capacity s' = capacity s"
proof -
  obtain as where b: "bien_formado s as" and xs: "xs = contenido s as"
    using assms by (auto simp: representa_def)
  show ?thesis
  proof (cases "map_has k (cache s)")
    case False
    then show ?thesis
      using get_falla[OF b False] assms by (auto simp: lista_get_def xs)
  next
    case True
    from get_acierta[OF b True] obtain a ys zs h' where
      "get k s = Inr (n_value (heap s ! a), s\<lparr>heap := h'\<rparr>)"
      "bien_formado (s\<lparr>heap := h'\<rparr>) (ys @ zs @ [a])"
      "contenido (s\<lparr>heap := h'\<rparr>) (ys @ zs @ [a]) =
               sin_clave k (contenido s as) @ [(k, n_value (heap s ! a))]"
      "map_of (contenido s as) k = Some (n_value (heap s ! a))"
      by blast
    then show ?thesis
      by (intro exI[of _ "s\<lparr>heap := h'\<rparr>"]) (auto simp: lista_get_def xs representa_def)
  qed
qed

text \<open>A heap that grows keeps its chains.\<close>

lemma cadena_crece:
  assumes "\<And>b. b \<in> set L \<Longrightarrow> b < length h"
  shows "cadena (h @ [x]) L = cadena h L"
proof (rule cadena_cong)
  fix b assume "b \<in> set (butlast L)"
  then have "b < length h" by (auto dest: in_set_butlastD intro: assms)
  then show "n_next ((h @ [x]) ! b) = n_next (h ! b)" by (simp add: nth_append)
next
  fix b assume "b \<in> set (tl L)"
  then have "b \<in> set L" by (cases L) auto
  then have "b < length h" by (rule assms)
  then show "n_prev ((h @ [x]) ! b) = n_prev (h ! b)" by (simp add: nth_append)
qed

text \<open>The end of \<^verbatim>\<open>put\<close> for a new key: a new node, its entry in the map, the node at the end.\<close>

lemma insertar_bien_formado:
  assumes b: "bien_formado s as" and k: "\<not> map_has k (cache s)"
    and cap: "int (length as) < capacity s"
  shows "\<exists>s'. addToEnd (length (heap s))
                 (s\<lparr>heap := heap s @ [new_Node k v],
                    cache := map_set k (length (heap s)) (cache s)\<rparr>) = Inr s'
           \<and> bien_formado s' (as @ [length (heap s)])
           \<and> contenido s' (as @ [length (heap s)]) = contenido s as @ [(k, v)]
           \<and> capacity s' = capacity s"
proof -
  let ?n = "length (heap s)"
  let ?h0 = "heap s @ [new_Node k v]"
  let ?s0 = "s\<lparr>heap := ?h0, cache := map_set k ?n (cache s)\<rparr>"
  have hd_tl: "head s = 0" "tail s = 1" and len: "2 \<le> length (heap s)"
    and d: "distinct as" and r: "\<forall>b\<in>set as. 2 \<le> b \<and> b < length (heap s)"
    and c: "cadena (heap s) (0 # as @ [1])"
    and dc: "distinct (map fst (cache s))"
    and im: "set (cache s) = (\<lambda>a. (n_key (heap s ! a), a)) ` set as"
    using b by (simp_all add: bien_formado_def)
  have fuera: "0 \<notin> set as" "1 \<notin> set as" "?n \<notin> set as"
    using r by fastforce+
  have c0: "cadena ?h0 ((0 # as) @ [tail ?s0])"
    using c r len hd_tl by (subst cadena_crece) auto
  have "\<exists>h'. addToEnd ?n ?s0 = Inr (?s0\<lparr>heap := h'\<rparr>)
           \<and> cadena h' ((0 # as) @ [?n, tail ?s0])
           \<and> length h' = length (heap ?s0)
           \<and> (\<forall>b. n_key (h' ! b) = n_key (heap ?s0 ! b)
                  \<and> n_value (h' ! b) = n_value (heap ?s0 ! b))"
    using c0 d r len hd_tl fuera by (intro addToEnd_cadena) auto
  then obtain h' where ad: "addToEnd ?n ?s0 = Inr (?s0\<lparr>heap := h'\<rparr>)"
    and c': "cadena h' (0 # (as @ [?n]) @ [1])" and l': "length h' = Suc ?n"
    and kv: "\<And>b. n_key (h' ! b) = n_key (?h0 ! b) \<and> n_value (h' ! b) = n_value (?h0 ! b)"
    using hd_tl by auto
  let ?s' = "?s0\<lparr>heap := h'\<rparr>"
  have viejo: "n_key (h' ! a) = n_key (heap s ! a) \<and> n_value (h' ! a) = n_value (heap s ! a)"
    if "a \<in> set as" for a
    using that r by (simp add: kv nth_append)
  have nuevo: "n_key (h' ! ?n) = k" "n_value (h' ! ?n) = v"
    by (simp_all add: kv new_Node_def)
  have kc: "map_of (cache s) k = None"
    using k by (simp add: map_has_def)
  have cs: "map_set k ?n (cache s) = cache s @ [(k, ?n)]"
    by (rule map_set_nuevo[OF kc])
  have "k \<notin> fst ` set (cache s)"
    using kc by (simp add: map_of_eq_None_iff)
  then have dc': "distinct (map fst (cache ?s'))"
    using dc by (simp add: cs)
  have im': "set (cache ?s') = (\<lambda>a. (n_key (heap ?s' ! a), a)) ` set (as @ [?n])"
    using viejo nuevo by (auto simp: cs im)
  have "bien_formado ?s' (as @ [?n])"
    unfolding bien_formado_def
    using b c' l' d r fuera dc' im' cap len hd_tl
    by (auto simp: bien_formado_def)
  moreover have "contenido ?s' (as @ [?n]) = contenido s as @ [(k, v)]"
    using viejo nuevo by (simp add: contenido_def)
  ultimately show ?thesis
    using ad by (intro exI[of _ ?s']) simp
qed

lemma set_map_delete:
  "distinct (map fst m) \<Longrightarrow> set (map_delete k m) = {p \<in> set m. fst p \<noteq> k}"
proof (induction m)
  case Nil
  show ?case by simp
next
  case (Cons p m)
  obtain a b where p: "p = (a, b)" by (cases p)
  show ?case
  proof (cases "a = k")
    case True
    then have "\<forall>q\<in>set m. fst q \<noteq> k"
      using Cons.prems by (auto simp: p)
    then show ?thesis
      using True by (auto simp: p)
  next
    case False
    then show ?thesis
      using Cons by (auto simp: p)
  qed
qed

lemma keys_map_delete: "distinct (map fst m) \<Longrightarrow> distinct (map fst (map_delete k m))"
proof (induction m)
  case Nil
  show ?case by simp
next
  case (Cons p m)
  have "fst ` set (map_delete k m) \<subseteq> fst ` set m"
    using Cons.prems by (auto simp: set_map_delete)
  with Cons show ?case by (cases p) auto
qed

text \<open>\<^verbatim>\<open>put\<close> on a stored key.\<close>

lemma put_guardada:
  assumes b: "bien_formado s as" and h: "map_has k (cache s)"
  shows "\<exists>s' as'. put k v s = Inr s' \<and> bien_formado s' as'
           \<and> contenido s' as' = sin_clave k (contenido s as) @ [(k, v)]
           \<and> capacity s' = capacity s"
proof -
  obtain a where a: "map_of (cache s) k = Some a"
    using h by (auto simp: map_has_def)
  then have aa: "a \<in> set as" and ka: "n_key (heap s ! a) = k"
    by (simp_all add: bien_formado_map_of[OF b])
  obtain xs ys where as: "as = xs @ a # ys"
    using aa by (auto simp: in_set_conv_decomp)
  define h1 where "h1 = (heap s)[a := (heap s ! a)\<lparr>n_value := v\<rparr>]"
  have a_lt: "a < length (heap s)"
    using b aa by (simp add: bien_formado_def)
  have p1: "n_key (h1 ! c) = n_key (heap s ! c)" "n_prev (h1 ! c) = n_prev (heap s ! c)"
    "n_next (h1 ! c) = n_next (heap s ! c)"
    "n_value (h1 ! c) = (if c = a then v else n_value (heap s ! c))" for c
    using a_lt by (simp_all add: h1_def nth_list_update)
  have l1: "length h1 = length (heap s)"
    by (simp add: h1_def)
  have "cadena h1 (0 # as @ [1]) = cadena (heap s) (0 # as @ [1])"
    by (rule cadena_cong) (simp_all add: p1)
  then have b1: "bien_formado (s\<lparr>heap := h1\<rparr>) (xs @ a # ys)"
    using b by (simp add: bien_formado_def p1 l1 as)
  obtain h' where mv: "moveToEnd a (s\<lparr>heap := h1\<rparr>) = Inr (s\<lparr>heap := h'\<rparr>)"
    and b': "bien_formado (s\<lparr>heap := h'\<rparr>) (xs @ ys @ [a])"
    and kv: "\<And>c. n_key (h' ! c) = n_key (h1 ! c) \<and> n_value (h' ! c) = n_value (h1 ! c)"
    using moveToEnd_bien_formado[OF b1] by auto
  have run: "put k v s = Inr (s\<lparr>heap := h'\<rparr>)"
    using h a mv by (simp add: put_def map_get_def h1_def)
  have fuera: "a \<notin> set (xs @ ys)"
    using b by (auto simp: bien_formado_def as)
  have "contenido (s\<lparr>heap := h'\<rparr>) (xs @ ys @ [a]) = contenido s (xs @ ys) @ [(k, v)]"
    using fuera by (auto simp: contenido_def kv p1 ka)
  also have "contenido s (xs @ ys) = sin_clave k (contenido s as)"
    using sin_clave_contenido[of s xs a ys] b by (simp add: as ka)
  finally show ?thesis
    using run b' by (intro exI[of _ "s\<lparr>heap := h'\<rparr>"] exI[of _ "xs @ ys @ [a]"]) simp
qed

text \<open>The eviction of \<^verbatim>\<open>put\<close>: the node after the head leaves the list and the map.\<close>

lemma expulsar_bien_formado:
  assumes b: "bien_formado s (a # as)"
  shows "\<exists>h1. n_next (heap s ! head s) = Some a
           \<and> removeNode a s = Inr (s\<lparr>heap := h1\<rparr>)
           \<and> n_key (h1 ! a) = n_key (heap s ! a)
           \<and> bien_formado (s\<lparr>heap := h1, cache := map_delete (n_key (heap s ! a)) (cache s)\<rparr>) as
           \<and> contenido (s\<lparr>heap := h1, cache := map_delete (n_key (heap s ! a)) (cache s)\<rparr>) as
               = contenido s as"
proof -
  have hd_tl: "head s = 0" "tail s = 1" and len: "2 \<le> length (heap s)"
    and d: "distinct (a # as)" and r: "\<forall>b\<in>set (a # as). 2 \<le> b \<and> b < length (heap s)"
    and c: "cadena (heap s) (0 # (a # as) @ [1])"
    and dc: "distinct (map fst (cache s))"
    and im: "set (cache s) = (\<lambda>a. (n_key (heap s ! a), a)) ` set (a # as)"
    using b by (simp_all add: bien_formado_def)
  have fuera: "0 \<notin> set (a # as)" "1 \<notin> set (a # as)"
    using r by fastforce+
  have nx: "n_next (heap s ! head s) = Some a"
    using c hd_tl by simp
  have "\<exists>h1. removeNode a s = Inr (s\<lparr>heap := h1\<rparr>) \<and> cadena h1 ([0] @ (as @ [1]))
           \<and> length h1 = length (heap s)
           \<and> (\<forall>b. n_key (h1 ! b) = n_key (heap s ! b) \<and> n_value (h1 ! b) = n_value (heap s ! b))"
    using c d r len fuera by (intro removeNode_cadena) auto
  then obtain h1 where rm: "removeNode a s = Inr (s\<lparr>heap := h1\<rparr>)"
    and c1: "cadena h1 (0 # as @ [1])" and l1: "length h1 = length (heap s)"
    and kv: "\<And>b. n_key (h1 ! b) = n_key (heap s ! b) \<and> n_value (h1 ! b) = n_value (heap s ! b)"
    by auto
  let ?k0 = "n_key (heap s ! a)"
  let ?s2 = "s\<lparr>heap := h1, cache := map_delete ?k0 (cache s)\<rparr>"
  have inj: "inj_on (\<lambda>a. n_key (heap s ! a)) (set (a # as))"
    by (rule bien_formado_claves[OF b])
  have otros: "n_key (heap s ! c) \<noteq> ?k0" if "c \<in> set as" for c
  proof
    assume "n_key (heap s ! c) = ?k0"
    moreover have "c \<in> set (a # as)" "a \<in> set (a # as)"
      using that by simp_all
    ultimately have "c = a" using inj by (meson inj_onD)
    then show False using d that by simp
  qed
  have "set (map_delete ?k0 (cache s)) = (\<lambda>a. (n_key (heap s ! a), a)) ` set as"
    using otros by (auto simp: set_map_delete[OF dc] im)
  then have "bien_formado ?s2 as"
    using b c1 l1 kv keys_map_delete[OF dc] by (auto simp: bien_formado_def)
  moreover have "contenido ?s2 as = contenido s as"
    by (rule contenido_cong) (simp add: kv)
  ultimately show ?thesis
    using nx rm kv by (intro exI[of _ h1]) simp
qed

lemma put_nueva:
  assumes b: "bien_formado s as" and k: "\<not> map_has k (cache s)"
  shows "\<exists>s' as'. put k v s = Inr s' \<and> bien_formado s' as'
           \<and> contenido s' as' =
               (if int (length as) \<ge> capacity s then tl (contenido s as) else contenido s as)
               @ [(k, v)]
           \<and> capacity s' = capacity s"
proof (cases "int (length as) \<ge> capacity s")
  case False
  then have nolleno: "\<not> int (length (cache s)) \<ge> capacity s"
    by (simp add: bien_formado_length[OF b])
  from insertar_bien_formado[OF b k, of v] False
  obtain s' where "addToEnd (length (heap s))
                 (s\<lparr>heap := heap s @ [new_Node k v],
                    cache := map_set k (length (heap s)) (cache s)\<rparr>) = Inr s'"
    and "bien_formado s' (as @ [length (heap s)])"
    and "contenido s' (as @ [length (heap s)]) = contenido s as @ [(k, v)]"
    and "capacity s' = capacity s"
    by auto
  then show ?thesis
    using k nolleno False
    by (intro exI[of _ s'] exI[of _ "as @ [length (heap s)]"]) (simp add: put_def Let_def)
next
  case True
  then have lleno: "int (length (cache s)) \<ge> capacity s"
    by (simp add: bien_formado_length[OF b])
  have "0 < capacity s"
    using b by (simp add: bien_formado_def)
  with True obtain a rest where as: "as = a # rest"
    by (cases as) auto
  from expulsar_bien_formado[of s a rest] b obtain h1 where
    nx: "n_next (heap s ! head s) = Some a"
    and rm: "removeNode a s = Inr (s\<lparr>heap := h1\<rparr>)"
    and k1: "n_key (h1 ! a) = n_key (heap s ! a)"
    and b2: "bien_formado (s\<lparr>heap := h1, cache := map_delete (n_key (heap s ! a)) (cache s)\<rparr>) rest"
    and c2: "contenido (s\<lparr>heap := h1, cache := map_delete (n_key (heap s ! a)) (cache s)\<rparr>) rest
               = contenido s rest"
    by (auto simp: as)
  let ?s2 = "s\<lparr>heap := h1, cache := map_delete (n_key (heap s ! a)) (cache s)\<rparr>"
  have dc: "distinct (map fst (cache s))"
    using b by (simp add: bien_formado_def)
  have k2: "\<not> map_has k (cache ?s2)"
    using k by (auto simp: map_has_def map_of_eq_None_iff set_map_delete[OF dc])
  have cap2: "int (length rest) < capacity ?s2"
    using b by (simp add: bien_formado_def as)
  from insertar_bien_formado[OF b2 k2 cap2, of v]
  obtain s' where ad: "addToEnd (length (heap ?s2))
                 (?s2\<lparr>heap := heap ?s2 @ [new_Node k v],
                    cache := map_set k (length (heap ?s2)) (cache ?s2)\<rparr>) = Inr s'"
    and b': "bien_formado s' (rest @ [length (heap ?s2)])"
    and c': "contenido s' (rest @ [length (heap ?s2)]) = contenido ?s2 rest @ [(k, v)]"
    and cap': "capacity s' = capacity ?s2"
    by auto
  have run: "put k v s = Inr s'"
    using k lleno nx rm k1 ad by (simp add: put_def Let_def)
  have "contenido s' (rest @ [length (heap ?s2)]) = tl (contenido s as) @ [(k, v)]"
    using c' c2 by (simp add: as contenido_def)
  then show ?thesis
    using run b' cap' True
    by (intro exI[of _ s'] exI[of _ "rest @ [length (heap ?s2)]"]) simp
qed

lemma representa_claves:
  assumes "representa s xs"
  shows "map_has k (cache s) \<longleftrightarrow> k \<in> fst ` set xs"
    and "distinct (map fst xs)"
    and "length (cache s) = length xs"
    and "int (length xs) \<le> capacity s"
    and "0 < capacity s"
proof -
  obtain as where b: "bien_formado s as" and xs: "xs = contenido s as"
    using assms by (auto simp: representa_def)
  show "map_has k (cache s) \<longleftrightarrow> k \<in> fst ` set xs"
    by (simp add: bien_formado_map_has[OF b] xs contenido_def image_image)
  show "distinct (map fst xs)"
    unfolding xs by (rule bien_formado_distinct_claves[OF b])
  show "length (cache s) = length xs"
    by (simp add: bien_formado_length[OF b] xs contenido_def)
  show "int (length xs) \<le> capacity s" "0 < capacity s"
    using b by (simp_all add: bien_formado_def xs contenido_def)
qed

lemma put_representa:
  assumes "representa s xs"
  shows "\<exists>s'. put k v s = Inr s' \<and> representa s' (lista_put (capacity s) k v xs)
           \<and> capacity s' = capacity s"
proof -
  obtain as where b: "bien_formado s as" and xs: "xs = contenido s as"
    using assms by (auto simp: representa_def)
  have l: "length xs = length as"
    by (simp add: xs contenido_def)
  show ?thesis
  proof (cases "map_has k (cache s)")
    case True
    then have "k \<in> fst ` set xs"
      by (simp add: representa_claves(1)[OF assms])
    then have lp: "lista_put (capacity s) k v xs = sin_clave k (contenido s as) @ [(k, v)]"
      by (simp add: lista_put_def xs)
    from put_guardada[OF b True, of v] obtain s' as' where
      "put k v s = Inr s'" "bien_formado s' as'"
      "contenido s' as' = sin_clave k (contenido s as) @ [(k, v)]" "capacity s' = capacity s"
      by blast
    then show ?thesis
      unfolding lp representa_def by (intro exI[of _ s']) auto
  next
    case False
    then have "k \<notin> fst ` set xs"
      by (simp add: representa_claves(1)[OF assms])
    then have lp: "lista_put (capacity s) k v xs =
        (if int (length as) \<ge> capacity s then tl (contenido s as) else contenido s as)
        @ [(k, v)]"
      using l by (simp add: lista_put_def xs)
    from put_nueva[OF b False, of v] obtain s' as' where
      "put k v s = Inr s'" "bien_formado s' as'"
      "contenido s' as' =
         (if int (length as) \<ge> capacity s then tl (contenido s as) else contenido s as)
         @ [(k, v)]"
      "capacity s' = capacity s"
      by blast
    then show ?thesis
      unfolding lp representa_def by (intro exI[of _ s']) auto
  qed
qed

lemma new_LRUCache_representa:
  assumes "0 < c"
  shows "\<exists>s. new_LRUCache c = Inr s \<and> representa s [] \<and> capacity s = c"
  using assms
  by (simp add: new_LRUCache_def representa_def bien_formado_def contenido_def new_Node_def)

lemma llamar_representa:
  assumes "representa s xs"
  shows "\<exists>s'. llamar c s = Inr s' \<and> representa s' (lista_llamar (capacity s) c xs)
           \<and> capacity s' = capacity s"
proof (cases c)
  case (Get k)
  with get_representa[OF assms, of k] show ?thesis by auto
next
  case (Put k v)
  with put_representa[OF assms, of k v] show ?thesis by auto
qed

lemma ejecutar_representa:
  assumes "representa s xs"
  shows "\<exists>s'. ejecutar cs s = Inr s'
           \<and> representa s' (fold (lista_llamar (capacity s)) cs xs)
           \<and> capacity s' = capacity s"
  using assms
proof (induction cs arbitrary: s xs)
  case Nil
  then show ?case by (simp add: ejecutar_def)
next
  case (Cons c cs)
  from llamar_representa[OF Cons.prems, of c] obtain s1 where
    1: "llamar c s = Inr s1" "representa s1 (lista_llamar (capacity s) c xs)"
      "capacity s1 = capacity s"
    by auto
  from Cons.IH[OF 1(2)] obtain s' where
    "ejecutar cs s1 = Inr s'"
    "representa s' (fold (lista_llamar (capacity s1)) cs (lista_llamar (capacity s) c xs))"
    "capacity s' = capacity s1"
    by auto
  then show ?case
    using 1 by (simp add: ejecutar_def)
qed

text \<open>\<^verbatim>\<open>keys\<close> returns, with the keys of the list in its order.\<close>

lemma keys_loop_cadena:
  assumes "cadena (heap s) (c # L @ [tail s])" and "tail s \<notin> set (c # L)"
  shows "keys_loop s (Some c) acc = Some (Inr (acc @ map (\<lambda>a. n_key (heap s ! a)) (c # L)))"
  using assms
proof (induction L arbitrary: c acc)
  case Nil
  then have "n_next (heap s ! c) = Some (tail s)" "c \<noteq> tail s"
    by simp_all
  then show ?case
    by (subst keys_loop.simps) (simp add: keys_loop.simps[of s "Some (tail s)"])
next
  case (Cons d L)
  then have "n_next (heap s ! c) = Some d" "c \<noteq> tail s"
    and "cadena (heap s) (d # L @ [tail s])" "tail s \<notin> set (d # L)"
    by simp_all
  then show ?case
    by (subst keys_loop.simps) (simp add: Cons.IH)
qed

lemma keys_loop_tail: "keys_loop s (Some (tail s)) acc = Some (Inr acc)"
  by (subst keys_loop.simps) simp

lemma keys_representa:
  assumes "representa s xs"
  shows "keys s = Some (Inr (map fst xs))"
proof -
  obtain as where b: "bien_formado s as" and xs: "xs = contenido s as"
    using assms by (auto simp: representa_def)
  have hd_tl: "head s = 0" "tail s = 1"
    and r: "\<forall>b\<in>set as. 2 \<le> b \<and> b < length (heap s)"
    and c: "cadena (heap s) (0 # as @ [1])"
    using b by (simp_all add: bien_formado_def)
  have fuera: "1 \<notin> set as"
    using r by fastforce
  show ?thesis
  proof (cases as)
    case Nil
    with c hd_tl have "n_next (heap s ! head s) = Some (tail s)"
      by simp
    then show ?thesis
      by (simp add: keys_def xs contenido_def Nil keys_loop_tail)
  next
    case (Cons a rest)
    with c hd_tl have "n_next (heap s ! head s) = Some a" "cadena (heap s) (a # rest @ [tail s])"
      by simp_all
    moreover have "tail s \<notin> set (a # rest)"
      using fuera hd_tl Cons by simp
    ultimately show ?thesis
      using keys_loop_cadena[of s a rest "[]"] Cons
      by (simp add: keys_def xs contenido_def comp_def)
  qed
qed

section \<open>The order of the list and the history of calls\<close>

lemma remdups_snoc: "remdups (zs @ [k]) = filter (\<lambda>x. x \<noteq> k) (remdups zs) @ [k]"
  by (induction zs) auto

lemma ultima_posicion_remdups:
  "filter P (remdups zs) = e # rest \<Longrightarrow> k \<in> set rest \<Longrightarrow>
   ultima_posicion zs e < ultima_posicion zs k"
proof (induction zs arbitrary: e rest)
  case Nil
  then show ?case by simp
next
  case (Cons z zs)
  show ?case
  proof (cases "z \<in> set zs")
    case True
    then have f: "filter P (remdups zs) = e # rest"
      using Cons.prems(1) by simp
    have "e \<in> set (filter P (remdups zs))" "k \<in> set (filter P (remdups zs))"
      using Cons.prems(2) by (simp_all add: f)
    then have "e \<in> set zs" "k \<in> set zs"
      by simp_all
    then show ?thesis
      using Cons.IH[OF f Cons.prems(2)] by simp
  next
    case False
    show ?thesis
    proof (cases "P z")
      case True
      then have e: "e = z" and rest: "rest = filter P (remdups zs)"
        using Cons.prems(1) False by simp_all
      have "k \<in> set zs"
        using Cons.prems(2) by (simp add: rest)
      then show ?thesis
        using False by (simp add: e)
    next
      case noP: False
      then have f: "filter P (remdups zs) = e # rest"
        using Cons.prems(1) False by simp
      have "e \<in> set (filter P (remdups zs))" "k \<in> set (filter P (remdups zs))"
        using Cons.prems(2) by (simp_all add: f)
      then have "e \<in> set zs" "k \<in> set zs"
        by simp_all
      then show ?thesis
        using Cons.IH[OF f Cons.prems(2)] by simp
    qed
  qed
qed

lemma claves_sin_clave: "map fst (sin_clave k xs) = filter (\<lambda>x. x \<noteq> k) (map fst xs)"
  by (simp add: sin_clave_def filter_map comp_def)

text \<open>One call keeps the list in the order of the last touches.\<close>

lemma lista_llamar_orden:
  assumes inv: "map fst xs = filter (\<lambda>x. x \<in> fst ` set xs) R"
    and d: "distinct (map fst xs)"
  shows "map fst (lista_llamar cap c xs) =
           filter (\<lambda>x. x \<in> fst ` set (lista_llamar cap c xs))
             (filter (\<lambda>x. x \<noteq> clave_de c) R @ [clave_de c])"
proof -
  let ?k = "clave_de c" and ?K = "fst ` set xs"
  have mover: "map fst (sin_clave ?k xs @ [(?k, v)]) =
      filter (\<lambda>x. x \<in> fst ` set (sin_clave ?k xs @ [(?k, v)])) (filter (\<lambda>x. x \<noteq> ?k) R @ [?k])"
    if "?k \<in> ?K" for v
  proof -
    have s: "fst ` set (sin_clave ?k xs @ [(?k, v)]) = ?K"
      using that by (auto simp: sin_clave_def image_iff)
    have "filter (\<lambda>x. x \<in> ?K) (filter (\<lambda>x. x \<noteq> ?k) R)
        = filter (\<lambda>x. x \<noteq> ?k) (filter (\<lambda>x. x \<in> ?K) R)"
      by (simp add: conj_commute)
    then show ?thesis
      unfolding s using that by (simp add: claves_sin_clave inv[symmetric])
  qed
  have igual: "filter (\<lambda>x. x \<in> ?K) (filter (\<lambda>x. x \<noteq> ?k) R) = filter (\<lambda>x. x \<in> ?K) R"
    if "?k \<notin> ?K"
    using that by (auto intro: filter_cong)
  have anadir: "map fst (ys @ [(?k, v)]) =
      filter (\<lambda>x. x \<in> fst ` set (ys @ [(?k, v)])) (filter (\<lambda>x. x \<noteq> ?k) R @ [?k])"
    if "?k \<notin> ?K" and ys: "map fst ys = filter (\<lambda>x. x \<in> fst ` set ys) R"
      and sub: "fst ` set ys \<subseteq> ?K" for ys v
  proof -
    have "?k \<notin> fst ` set ys"
      using that(1) sub by blast
    then have nk: "\<And>b. (?k, b) \<notin> set ys"
      by force
    have "filter (\<lambda>x. x \<in> fst ` set (ys @ [(?k, v)])) (filter (\<lambda>x. x \<noteq> ?k) R)
        = filter (\<lambda>x. x \<in> fst ` set ys) R"
      using nk by (auto intro!: filter_cong)
    then show ?thesis
      by (simp add: ys[symmetric])
  qed
  have cola: "map fst (tl xs) = filter (\<lambda>x. x \<in> fst ` set (tl xs)) R"
  proof (cases xs)
    case Nil
    then show ?thesis by simp
  next
    case (Cons p ps)
    have "filter (\<lambda>x. x \<in> fst ` set ps) R
        = filter (\<lambda>x. x \<in> fst ` set ps) (filter (\<lambda>x. x \<in> ?K) R)"
      by (auto simp: Cons intro!: filter_cong)
    also have "\<dots> = filter (\<lambda>x. x \<in> fst ` set ps) (map fst xs)"
      by (simp add: inv[symmetric])
    also have "\<dots> = map fst ps"
      using d by (auto simp: Cons filter_id_conv)
    finally show ?thesis
      by (simp add: Cons)
  qed
  have sub: "fst ` set (tl xs) \<subseteq> ?K"
    by (cases xs) auto
  show ?thesis
  proof (cases c)
    case (Get k)
    show ?thesis
    proof (cases "map_of xs k")
      case None
      then have "k \<notin> ?K"
        by (simp add: map_of_eq_None_iff)
      then show ?thesis
        using igual by (simp add: Get lista_get_def None inv[symmetric])
    next
      case (Some v)
      then have "k \<in> ?K"
        by (meson domI domIff map_of_eq_None_iff)
      then show ?thesis
        using mover[of v] by (simp add: Get lista_get_def Some)
    qed
  next
    case (Put k v)
    show ?thesis
    proof (cases "k \<in> ?K")
      case True
      then show ?thesis
        using mover[of v] by (simp add: Put lista_put_def)
    next
      case False
      then show ?thesis
        using anadir[of xs v] anadir[of "tl xs" v] cola sub inv
        by (simp add: Put lista_put_def)
    qed
  qed
qed

lemma lista_llamar_distinct:
  "distinct (map fst xs) \<Longrightarrow> distinct (map fst (lista_llamar cap c xs))"
proof (cases c)
  case (Get k)
  assume d: "distinct (map fst xs)"
  then have "distinct (map fst (sin_clave k xs))"
    by (simp add: claves_sin_clave)
  then show ?thesis
    by (auto simp: Get lista_get_def d claves_sin_clave split: option.splits)
next
  case (Put k v)
  assume d: "distinct (map fst xs)"
  then have 1: "distinct (map fst (sin_clave k xs))"
    by (simp add: claves_sin_clave)
  have 2: "distinct (map fst (tl xs))" "fst ` set (tl xs) \<subseteq> fst ` set xs"
    using d by (cases xs; auto)+
  show ?thesis
    using d 1 2 by (auto simp: Put lista_put_def claves_sin_clave)
qed

lemma fold_lista_llamar_distinct: "distinct (map fst (fold (lista_llamar cap) cs []))"
  by (induction cs rule: rev_induct) (simp_all add: lista_llamar_distinct)

lemma orden_de_toques:
  "map fst (fold (lista_llamar cap) cs []) =
     filter (\<lambda>x. x \<in> fst ` set (fold (lista_llamar cap) cs [])) (remdups (map clave_de cs))"
proof (induction cs rule: rev_induct)
  case Nil
  show ?case by simp
next
  case (snoc c cs)
  show ?case
    using lista_llamar_orden[OF snoc fold_lista_llamar_distinct, of cap c]
    by (simp add: remdups_snoc)
qed

text \<open>Every cache that calls have made from a new one holds a list.\<close>

lemma alcanzable_representa:
  assumes "new_LRUCache cap = Inr s0" and "ejecutar cs s0 = Inr s"
  shows "representa s (fold (lista_llamar cap) cs [])" and "capacity s = cap"
proof -
  have "0 < cap"
    using assms(1) by (auto simp: new_LRUCache_def split: if_splits)
  from new_LRUCache_representa[OF this] assms(1)
  have 0: "representa s0 []" "capacity s0 = cap"
    by auto
  from ejecutar_representa[OF 0(1), of cs] assms(2) 0(2)
  show "representa s (fold (lista_llamar cap) cs [])" and "capacity s = cap"
    by auto
qed

lemma valor_guardado_representa:
  assumes "representa s xs"
  shows "valor_guardado s k = map_of xs k"
proof -
  obtain as where b: "bien_formado s as" and xs: "xs = contenido s as"
    using assms by (auto simp: representa_def)
  show ?thesis
  proof (cases "map_of (cache s) k")
    case None
    then have "\<not> map_has k (cache s)"
      by (simp add: map_has_def)
    from get_falla(2)[OF b this] None show ?thesis
      by (simp add: valor_guardado_def map_get_def xs)
  next
    case (Some a)
    then have "a \<in> set as" "n_key (heap s ! a) = k"
      by (simp_all add: bien_formado_map_of[OF b])
    with map_of_contenido[OF b, of a] Some show ?thesis
      by (simp add: valor_guardado_def map_get_def xs)
  qed
qed

section \<open>Eviction and misses\<close>

lemma test1_evaluado:
  "(case new_LRUCache 3 of
      Inl e \<Rightarrow> None
    | Inr s0 \<Rightarrow>
        (case ejecutar llamadas_test1 s0 of
           Inl e \<Rightarrow> None
         | Inr s \<Rightarrow>
             Some (keys s, map_has (Str ''a'') (cache s), map_has (Str ''b'') (cache s),
                   map_has (Str ''c'') (cache s), map_has (Str ''d'') (cache s))))
   = Some (Some (Inr [Str ''c'', Str ''a'', Str ''d'']), True, False, True, True)"
  by code_simp

text \<open>
  C9. On a cache of capacity 3 the calls put(a), put(b), put(c), get(a), put(d) leave the
  keys c, a, d in this order, least recently used first: b is evicted, a and c are not.
  In general, on every cache that calls have made from a new one: a \<^verbatim>\<open>put\<close> of a key
  that is not stored, at full capacity, returns; it removes the first key of the list and
  no other, and appends the new key; and the removed key is the stored key whose last
  touch by a \<^verbatim>\<open>get\<close> or a \<^verbatim>\<open>put\<close> of the history is the earliest. Every sequence of
  calls on a new cache returns.
\<close>

theorem expulsion_menos_reciente:
  "(\<exists>s0 s. new_LRUCache 3 = Inr s0 \<and> ejecutar llamadas_test1 s0 = Inr s
      \<and> keys s = Some (Inr [Str ''c'', Str ''a'', Str ''d''])
      \<and> \<not> map_has (Str ''b'') (cache s)
      \<and> map_has (Str ''a'') (cache s) \<and> map_has (Str ''c'') (cache s)
      \<and> map_has (Str ''d'') (cache s))
   \<and> (\<forall>cap cs s0 s k v.
        new_LRUCache cap = Inr s0 \<and> ejecutar cs s0 = Inr s
        \<and> \<not> map_has k (cache s) \<and> capacity s \<le> int (size' s) \<longrightarrow>
        (\<exists>e ks s'. keys s = Some (Inr (e # ks)) \<and> put k v s = Inr s'
           \<and> keys s' = Some (Inr (ks @ [k]))
           \<and> \<not> map_has e (cache s')
           \<and> (\<forall>k'\<in>set ks. map_has k' (cache s') \<and> ultimo_toque cs e < ultimo_toque cs k')))
   \<and> (\<forall>cap cs. 0 < cap \<longrightarrow> (\<exists>s0 s. new_LRUCache cap = Inr s0 \<and> ejecutar cs s0 = Inr s))"
proof (intro conjI allI impI)
  show "\<exists>s0 s. new_LRUCache 3 = Inr s0 \<and> ejecutar llamadas_test1 s0 = Inr s
      \<and> keys s = Some (Inr [Str ''c'', Str ''a'', Str ''d''])
      \<and> \<not> map_has (Str ''b'') (cache s)
      \<and> map_has (Str ''a'') (cache s) \<and> map_has (Str ''c'') (cache s)
      \<and> map_has (Str ''d'') (cache s)"
    using test1_evaluado by (auto split: sum.splits)
next
  fix cap cs s0 s k v
  assume a: "new_LRUCache cap = Inr s0 \<and> ejecutar cs s0 = Inr s
        \<and> \<not> map_has k (cache s) \<and> capacity s \<le> int (size' s)"
  let ?xs = "fold (lista_llamar cap) cs []"
  have rep: "representa s ?xs" and cap: "capacity s = cap"
    using alcanzable_representa[of cap s0 cs s] a by auto
  note cl = representa_claves[OF rep]
  have "capacity s \<le> int (length ?xs)"
    using a cl(3) by (simp add: size'_def)
  then have "?xs \<noteq> []"
    using cl(5) by auto
  then obtain e ve rest where xs: "?xs = (e, ve) # rest"
    by (cases ?xs) auto
  have knueva: "k \<notin> fst ` set ?xs"
    using a cl(1) by simp
  have llena: "cap \<le> int (length ?xs)"
    using a cl(3) cap by (simp add: size'_def)
  have lp: "lista_put cap k v ?xs = rest @ [(k, v)]"
    using knueva llena by (simp add: lista_put_def xs)
  obtain s' where p: "put k v s = Inr s'" and rep': "representa s' (rest @ [(k, v)])"
    using put_representa[OF rep, of k v] by (auto simp: cap lp)
  have k1: "keys s = Some (Inr (e # map fst rest))"
    using keys_representa[OF rep] by (simp add: xs)
  have k2: "keys s' = Some (Inr (map fst rest @ [k]))"
    using keys_representa[OF rep'] by simp
  have "e \<notin> fst ` set rest" "e \<noteq> k"
    using cl(2) knueva by (auto simp: xs)
  then have fuera: "\<not> map_has e (cache s')"
    by (auto simp: representa_claves(1)[OF rep'])
  have orden: "filter (\<lambda>x. x \<in> fst ` set ?xs) (remdups (map clave_de cs)) = e # map fst rest"
    using orden_de_toques[of cap cs] by (simp add: xs)
  have "map_has k' (cache s') \<and> ultimo_toque cs e < ultimo_toque cs k'"
    if "k' \<in> set (map fst rest)" for k'
    using that ultima_posicion_remdups[OF orden that]
    by (auto simp: representa_claves(1)[OF rep'] ultimo_toque_def)
  then show "\<exists>e ks s'. keys s = Some (Inr (e # ks)) \<and> put k v s = Inr s'
           \<and> keys s' = Some (Inr (ks @ [k]))
           \<and> \<not> map_has e (cache s')
           \<and> (\<forall>k'\<in>set ks. map_has k' (cache s') \<and> ultimo_toque cs e < ultimo_toque cs k')"
    using k1 k2 p fuera by (intro exI[of _ e] exI[of _ "map fst rest"] exI[of _ s']) blast
next
  fix cap :: int and cs
  assume "0 < cap"
  from new_LRUCache_representa[OF this] obtain s0 where
    0: "new_LRUCache cap = Inr s0" "representa s0 []"
    by auto
  from ejecutar_representa[OF 0(2), of cs] obtain s where "ejecutar cs s0 = Inr s"
    by auto
  with 0(1) show "\<exists>s0 s. new_LRUCache cap = Inr s0 \<and> ejecutar cs s0 = Inr s"
    by blast
qed

lemma lista_antes:
  "fold (lista_llamar 3) llamadas_antes [] =
     [(Str ''b'', Num 2), (Str ''c'', Num 3), (Str ''a'', Num 1)]"
  by code_simp

lemma toques_antes:
  "ultimo_toque llamadas_antes (Str ''b'') = 1"
  "ultimo_toque llamadas_antes (Str ''c'') = 2"
  "ultimo_toque llamadas_antes (Str ''a'') = 3"
  by code_simp+

theorem expulsion_menos_reciente_witness:
  "\<exists>s0 s s'. new_LRUCache 3 = Inr s0 \<and> ejecutar llamadas_antes s0 = Inr s
      \<and> \<not> map_has (Str ''d'') (cache s) \<and> capacity s \<le> int (size' s)
      \<and> keys s = Some (Inr [Str ''b'', Str ''c'', Str ''a''])
      \<and> put (Str ''d'') (Num 4) s = Inr s'
      \<and> keys s' = Some (Inr [Str ''c'', Str ''a'', Str ''d''])
      \<and> \<not> map_has (Str ''b'') (cache s')
      \<and> ultimo_toque llamadas_antes (Str ''b'') < ultimo_toque llamadas_antes (Str ''c'')
      \<and> ultimo_toque llamadas_antes (Str ''b'') < ultimo_toque llamadas_antes (Str ''a'')"
proof -
  note t = expulsion_menos_reciente
  obtain s0 s where 0: "new_LRUCache 3 = Inr s0" and 1: "ejecutar llamadas_antes s0 = Inr s"
    using t[THEN conjunct2, THEN conjunct2, rule_format, of 3 llamadas_antes] by auto
  have rep: "representa s [(Str ''b'', Num 2), (Str ''c'', Num 3), (Str ''a'', Num 1)]"
    and cap: "capacity s = 3"
    using alcanzable_representa[OF 0 1] by (simp_all add: lista_antes)
  have nueva: "\<not> map_has (Str ''d'') (cache s)"
    by (simp add: representa_claves(1)[OF rep])
  have llena: "capacity s \<le> int (size' s)"
    by (simp add: cap size'_def representa_claves(3)[OF rep])
  have ks: "keys s = Some (Inr [Str ''b'', Str ''c'', Str ''a''])"
    using keys_representa[OF rep] by simp
  from t[THEN conjunct2, THEN conjunct1, rule_format,
      of 3 s0 llamadas_antes s "Str ''d''" "Num 4"] 0 1 nueva llena
  obtain e rest s' where
    "keys s = Some (Inr (e # rest))" "put (Str ''d'') (Num 4) s = Inr s'"
    "keys s' = Some (Inr (rest @ [Str ''d'']))" "\<not> map_has e (cache s')"
    "\<forall>k'\<in>set rest. map_has k' (cache s')
        \<and> ultimo_toque llamadas_antes e < ultimo_toque llamadas_antes k'"
    by blast
  then have "put (Str ''d'') (Num 4) s = Inr s'"
    "keys s' = Some (Inr [Str ''c'', Str ''a'', Str ''d''])"
    "\<not> map_has (Str ''b'') (cache s')"
    "ultimo_toque llamadas_antes (Str ''b'') < ultimo_toque llamadas_antes (Str ''c'')"
    "ultimo_toque llamadas_antes (Str ''b'') < ultimo_toque llamadas_antes (Str ''a'')"
    using ks by auto
  with 0 1 nueva llena ks show ?thesis
    by blast
qed

text \<open>
  C10. When the key is not stored, \<^verbatim>\<open>get\<close> returns \<open>-1\<close> and the cache that it leaves is
  the cache that it found: same map, same heap, so the same keys, values and order. On
  every cache that calls have made from a new one, \<^verbatim>\<open>get\<close> returns the stored value of
  a stored key; so for a key whose stored value is \<open>-1\<close> it returns \<open>-1\<close>, the value that
  it returns for a key that is not stored.
\<close>

theorem get_ausente:
  "(\<not> map_has k (cache s) \<longrightarrow> get k s = Inr (Num (- 1), s))
   \<and> (\<forall>cap cs s0. new_LRUCache cap = Inr s0 \<and> ejecutar cs s0 = Inr s \<longrightarrow>
        (\<exists>s'. get k s =
                 Inr (case valor_guardado s k of None \<Rightarrow> Num (- 1) | Some v \<Rightarrow> v, s'))
        \<and> (valor_guardado s k = None \<longleftrightarrow> \<not> map_has k (cache s))
        \<and> (valor_guardado s k = Some (Num (- 1)) \<longrightarrow>
             (\<exists>s'. get k s = Inr (Num (- 1), s'))))"
proof (intro conjI allI impI)
  assume "\<not> map_has k (cache s)"
  then show "get k s = Inr (Num (- 1), s)"
    by (simp add: get_def)
next
  fix cap cs s0
  assume a: "new_LRUCache cap = Inr s0 \<and> ejecutar cs s0 = Inr s"
  let ?xs = "fold (lista_llamar cap) cs []"
  have rep: "representa s ?xs"
    using alcanzable_representa[of cap s0 cs s] a by auto
  have vg: "valor_guardado s k = map_of ?xs k"
    by (rule valor_guardado_representa[OF rep])
  have g: "\<exists>s'. get k s = Inr (fst (lista_get k ?xs), s')"
    using get_representa[OF rep, of k] by auto
  then show 1: "\<exists>s'. get k s =
      Inr (case valor_guardado s k of None \<Rightarrow> Num (- 1) | Some v \<Rightarrow> v, s')"
    by (simp add: vg lista_get_def split: option.splits)
  show "valor_guardado s k = None \<longleftrightarrow> \<not> map_has k (cache s)"
    by (simp add: vg representa_claves(1)[OF rep] map_of_eq_None_iff)
  assume "valor_guardado s k = Some (Num (- 1))"
  with 1 show "\<exists>s'. get k s = Inr (Num (- 1), s')"
    by simp
qed

lemma lista_menos_uno:
  "fold (lista_llamar 2) llamadas_menos_uno [] = [(Str ''x'', Num (- 1))]"
  by code_simp

theorem get_ausente_witness:
  "\<exists>s0 s s'. new_LRUCache 2 = Inr s0 \<and> ejecutar llamadas_menos_uno s0 = Inr s
      \<and> \<not> map_has (Str ''y'') (cache s) \<and> get (Str ''y'') s = Inr (Num (- 1), s)
      \<and> valor_guardado s (Str ''x'') = Some (Num (- 1))
      \<and> get (Str ''x'') s = Inr (Num (- 1), s')"
proof -
  obtain s0 s where 0: "new_LRUCache 2 = Inr s0" and 1: "ejecutar llamadas_menos_uno s0 = Inr s"
    using new_LRUCache_representa[of 2] ejecutar_representa[of _ "[]" llamadas_menos_uno]
    by fastforce
  have rep: "representa s [(Str ''x'', Num (- 1))]"
    using alcanzable_representa[OF 0 1] by (simp add: lista_menos_uno)
  have y: "\<not> map_has (Str ''y'') (cache s)"
    by (simp add: representa_claves(1)[OF rep])
  have x: "valor_guardado s (Str ''x'') = Some (Num (- 1))"
    by (simp add: valor_guardado_representa[OF rep])
  have "get (Str ''y'') s = Inr (Num (- 1), s)"
    using get_ausente[of "Str ''y''" s] y by simp
  moreover obtain s' where "get (Str ''x'') s = Inr (Num (- 1), s')"
    using get_ausente[of "Str ''x''" s, THEN conjunct2, rule_format, of 2 s0 llamadas_menos_uno]
      0 1 x by blast
  ultimately show ?thesis
    using 0 1 y x by blast
qed

end
